theory Spec2Isabelle
  imports Complex_Main "HOL-Library.Sublist"
begin

section \<open>The network wrapper \<open>pandana.py\<close> and the engine behind it\<close>

text \<open>
  \<open>pandana.py\<close> is a thin Python layer over the compiled extension \<open>_pyaccess\<close>.
  The Python layer is embedded from its source. The extension is not part of the
  sources at hand; what the wrapper needs from it is modelled from the specification,
  and every such definition says so.

  Python integers are \<open>int\<close>. Floating-point columns are \<open>real\<close>; a column that the
  source passes through \<open>dropna\<close> has entries of type \<open>real option\<close>, \<open>None\<close> being NaN.
  An exception is a value \<open>Inl e\<close>; an operation returns its result together with the
  state it leaves behind, also when it raises.
\<close>

datatype error =
    AssertionError
  | KeyError
  | NameError
  | ValueError
  | ConfigurationError
  | InvalidArgument
  | UninitializedState

subsection \<open>Tables\<close>

text \<open>
  A pandas Series is a list of rows \<open>(label, value)\<close> in order. Building a DataFrame
  from two Series aligns them on their labels: equal indexes are kept as they are,
  different indexes without duplicates give the sorted union with missing cells,
  and different indexes with duplicates cannot be reindexed.
\<close>

type_synonym 'a series = "(int \<times> 'a) list"

definition DataFrame2 :: "'a series \<Rightarrow> 'b series \<Rightarrow> error + (int \<times> 'a option \<times> 'b option) list" where
  "DataFrame2 a b =
     (if map fst a = map fst b
      then Inr (map (\<lambda>((l, x), (_, y)). (l, Some x, Some y)) (zip a b))
      else if distinct (map fst a) \<and> distinct (map fst b)
      then Inr (map (\<lambda>l. (l, map_of a l, map_of b l)) (sort (remdups (map fst a @ map fst b))))
      else Inl ValueError)"

text \<open>\<open>dropna(how="any")\<close> on a two-column frame whose cells may also hold NaN.\<close>

definition dropna :: "(int \<times> 'a option option \<times> 'b option option) list \<Rightarrow> (int \<times> 'a \<times> 'b) list" where
  "dropna rows = concat (map (\<lambda>(l, x, y).
       (case (x, y) of (Some (Some u), Some (Some v)) \<Rightarrow> [(l, u, v)] | _ \<Rightarrow> [])) rows)"

subsection \<open>The engine's graph store\<close>

text \<open>
  One graph of the engine: coordinates by dense node index, the directed arcs with one
  weight per impedance, the number of impedances, the accessibility variables as the rows they were initialised
  with, and the range cache (cutoff and, per source node, the label of every node
  reached).
\<close>

record egraph =
  g_ids :: "int list"
  g_xy :: "(real \<times> real) list"
  g_arcs :: "(nat \<times> nat \<times> real list) list"
  g_k :: nat
  g_vars :: "(nat \<times> real) list list"
  g_cache :: "(real \<times> real list option list list) option"

text \<open>What the module prints; the timings printed by \<open>set\<close> carry no value here.\<close>

datatype printed = Removed int | Up | Describe | Elapsed

text \<open>
  The module globals of \<open>pandana.py\<close> and the state of the extension. The name
  \<open>CAT_NAME_TO_IND\<close> is read by two methods and bound by no statement of the module:
  \<open>None\<close> is the unbound name, \<open>Some d\<close> a dictionary bound to it from outside.
  \<open>slots\<close> is the engine's slot table, \<open>None\<close> before its capacity is reserved;
  \<open>poi_conf\<close> and \<open>poi_cats\<close> are the engine's facility configuration and point sets;
  \<open>stdout\<close> is what has been printed so far.
\<close>

record world =
  MAX_NUM_NETWORKS :: int
  NUM_NETWORKS :: int
  CAT_NAME_TO_IND :: "(string \<times> nat) list option"
  slots :: "egraph option list option"
  poi_conf :: "(int \<times> real \<times> int) option"
  poi_cats :: "(nat \<times> (real option \<times> real option) list) list"
  stdout :: "printed list"

definition initial :: world where
  "initial = \<lparr> MAX_NUM_NETWORKS = 0, NUM_NETWORKS = 0, CAT_NAME_TO_IND = None,
               slots = None, poi_conf = None, poi_cats = [], stdout = [] \<rparr>"

text \<open>
  Modelled from the spec: \<open>_pyaccess.create_graphs\<close>, the engine's \<open>reserve(capacity)\<close>,
  which sets the maximum number of graphs, is callable exactly once and fails if the
  capacity is already set or \<open>capacity \<le> 0\<close>.
\<close>

definition create_graphs :: "int \<Rightarrow> world \<Rightarrow> (error + unit) \<times> world" where
  "create_graphs num w =
     (if slots w \<noteq> None \<or> num \<le> 0 then (Inl ConfigurationError, w)
      else (Inr (), w\<lparr>slots := Some (replicate (nat num) None)\<rparr>))"

text \<open>
  Modelled from the spec: \<open>_pyaccess.create_graph\<close>, the engine's \<open>createGraph\<close>. It fails
  if capacity is exhausted, if coordinate or edge array lengths are inconsistent, or if
  any weight is negative; with \<open>twoway\<close> each input edge gives two arcs with identical
  weights. The graph takes the slot it is given and keeps it.
\<close>

definition int32 :: "int \<Rightarrow> int" where
  "int32 i = (i + 2147483648) mod 4294967296 - 2147483648"

definition build_arcs :: "(int \<times> int) list \<Rightarrow> real list list \<Rightarrow> bool \<Rightarrow> (nat \<times> nat \<times> real list) list" where
  "build_arcs es ws twoway =
     concat (map (\<lambda>((a, b), r). if twoway then [(nat a, nat b, r), (nat b, nat a, r)]
                                 else [(nat a, nat b, r)]) (zip es ws))"

definition create_graph ::
  "int \<Rightarrow> int list \<Rightarrow> (real \<times> real) list \<Rightarrow> (int \<times> int) list \<Rightarrow> real list list \<Rightarrow> nat \<Rightarrow> bool
     \<Rightarrow> world \<Rightarrow> (error + unit) \<times> world" where
  "create_graph gno ids xy es ws k twoway w =
     (case slots w of
        None \<Rightarrow> (Inl ConfigurationError, w)
      | Some tbl \<Rightarrow>
          if gno < 0 \<or> int (length tbl) \<le> gno then (Inl ConfigurationError, w)
          else if length ids \<noteq> length xy \<or> length es \<noteq> length ws
                  \<or> (\<exists>r \<in> set ws. length r \<noteq> k)
                  \<or> (\<exists>(a, b) \<in> set es. a < 0 \<or> int (length xy) \<le> a \<or> b < 0 \<or> int (length xy) \<le> b)
          then (Inl InvalidArgument, w)
          else if \<exists>r \<in> set ws. \<exists>x \<in> set r. x < 0 then (Inl InvalidArgument, w)
          else (Inr (), w\<lparr>slots := Some (tbl[nat gno :=
                  Some \<lparr> g_ids = ids, g_xy = xy, g_arcs = build_arcs es ws twoway,
                         g_k = k, g_vars = [], g_cache = None \<rparr>])\<rparr>))"

definition graph_at :: "world \<Rightarrow> int \<Rightarrow> egraph option" where
  "graph_at w gno =
     (case slots w of
        None \<Rightarrow> None
      | Some tbl \<Rightarrow> if 0 \<le> gno \<and> gno < int (length tbl) then tbl ! nat gno else None)"

definition put_graph :: "world \<Rightarrow> int \<Rightarrow> egraph \<Rightarrow> world" where
  "put_graph w gno g = w\<lparr>slots := map_option (\<lambda>tbl. tbl[nat gno := Some g]) (slots w)\<rparr>"

subsection \<open>Module level: \<open>reserve_num_graphs\<close>\<close>

definition reserve_num_graphs :: "int \<Rightarrow> world \<Rightarrow> (error + unit) \<times> world" where
  "reserve_num_graphs num w =
     (if MAX_NUM_NETWORKS w \<noteq> 0 then (Inl AssertionError, w)
      else if \<not> num > 0 then (Inl AssertionError, w)
      else create_graphs num (w\<lparr>MAX_NUM_NETWORKS := num\<rparr>))"

subsection \<open>The class \<open>Network\<close>\<close>

record network =
  graph_no :: int
  nodes_df :: "(int \<times> real \<times> real) list"
  edges_df :: "(int \<times> int \<times> real list) list"
  impedance_names :: "string list"
  variable_names :: "string list"
  node_idx :: "(int \<times> nat) list"

text \<open>
  \<open>_node_indexes\<close>: the left merge of a column of node ids with \<open>node_idx\<close>. Every row
  of the column gives one row per node carrying that id, or one row with a missing
  index if no node does; the rows keep the labels of the column.
\<close>

definition node_indexes :: "(int \<times> nat) list \<Rightarrow> int series \<Rightarrow> nat option series" where
  "node_indexes idx col =
     concat (map (\<lambda>(l, i).
       (case map snd (filter (\<lambda>(j, _). j = i) idx) of
          [] \<Rightarrow> [(l, None)]
        | ks \<Rightarrow> map (\<lambda>k. (l, Some k)) ks)) col)"

definition node_ids :: "network \<Rightarrow> int list" where
  "node_ids net = map fst (node_idx net)"

subsection \<open>The engine's range queries\<close>

text \<open>
  Modelled from the spec: the cutoff-bounded label-setting search of \<open>precompute\<close>. A
  label is the distance of a node under every impedance, along one path from the
  source; the frontier is ordered by the reference impedance \<open>r\<close>. The label with the
  least reference distance is taken from the frontier; the search stops once that
  distance exceeds the cutoff; a node not yet settled is settled with the label, and
  its arcs put the extended labels on the frontier.
\<close>

type_synonym label = "real list \<times> nat"

definition imp :: "nat \<Rightarrow> real list \<Rightarrow> real" where
  "imp r ds = (if r < length ds then ds ! r else 0)"

fun pop_min :: "nat \<Rightarrow> label \<Rightarrow> label list \<Rightarrow> label \<times> label list" where
  "pop_min r x [] = (x, [])"
| "pop_min r x (y # ys) =
     (case pop_min r y ys of (m, rest) \<Rightarrow>
        if imp r (fst x) \<le> imp r (fst m) then (x, y # ys) else (m, x # rest))"

definition extend :: "(nat \<times> nat \<times> real list) list \<Rightarrow> label \<Rightarrow> label list" where
  "extend arcs l =
     map (\<lambda>(a, v, ws). (map (\<lambda>(d, x). d + x) (zip (fst l) ws), v))
         (filter (\<lambda>(a, v, ws). a = snd l) arcs)"

definition unsettled :: "real list option list \<Rightarrow> nat" where
  "unsettled L = length (filter (\<lambda>x. x = None) L)"

function search ::
  "(nat \<times> nat \<times> real list) list \<Rightarrow> nat \<Rightarrow> real \<Rightarrow> real list option list \<Rightarrow> label list
     \<Rightarrow> real list option list" where
  "search arcs r c L [] = L"
| "search arcs r c L (x # xs) =
     (let m = fst (pop_min r x xs); rest = snd (pop_min r x xs) in
      if c < imp r (fst m) then L
      else if snd m < length L \<and> L ! snd m = None
      then search arcs r c (L[snd m := Some (fst m)]) (rest @ extend arcs m)
      else search arcs r c L rest)"
  by pat_completeness auto

definition range_search :: "egraph \<Rightarrow> nat \<Rightarrow> real \<Rightarrow> nat \<Rightarrow> real list option list" where
  "range_search g r c s =
     search (g_arcs g) r c (replicate (length (g_xy g)) None) [(replicate (g_k g) 0, s)]"

text \<open>The cached labels of one source, trimmed to a smaller cutoff.\<close>

definition trim :: "nat \<Rightarrow> real \<Rightarrow> real list option list \<Rightarrow> real list option list" where
  "trim r c L = map (\<lambda>l. case l of None \<Rightarrow> None
                              | Some ds \<Rightarrow> if imp r ds \<le> c then Some ds else None) L"

text \<open>
  Modelled from the spec: \<open>_pyaccess.precompute_range\<close>, the engine's \<open>precompute\<close>. It
  runs the search from every source node and overwrites any prior cache of the graph;
  an unknown graph index or a cutoff \<open>\<le> 0\<close> is a rejected argument.
\<close>

definition precompute_range :: "nat \<Rightarrow> real \<Rightarrow> int \<Rightarrow> world \<Rightarrow> (error + unit) \<times> world" where
  "precompute_range r c gno w =
     (case graph_at w gno of
        None \<Rightarrow> (Inl InvalidArgument, w)
      | Some g \<Rightarrow>
          if c \<le> 0 then (Inl InvalidArgument, w)
          else (Inr (), put_graph w gno
                  (g\<lparr>g_cache := Some (c, map (range_search g r c) [0..<length (g_xy g)])\<rparr>)))"

text \<open>
  Modelled from the spec: the engine's \<open>query\<close>. A cutoff covered by the cache is
  answered from the cached labels of the source, trimmed to the cutoff; any other is
  computed on demand for that source, and the cache is left as it is. The answer says
  which of the two happened.
\<close>

datatype provenance = FromCache | OnDemand

definition lookup_range :: "nat \<Rightarrow> egraph \<Rightarrow> nat \<Rightarrow> real \<Rightarrow> provenance \<times> real list option list" where
  "lookup_range r g s c =
     (case g_cache g of
        None \<Rightarrow> (OnDemand, range_search g r c s)
      | Some (c', tbl) \<Rightarrow>
          if c \<le> c' \<and> s < length tbl then (FromCache, trim r c (tbl ! s))
          else (OnDemand, range_search g r c s))"

definition range_query ::
  "nat \<Rightarrow> egraph \<Rightarrow> nat \<Rightarrow> real \<Rightarrow> error + provenance \<times> real list option list" where
  "range_query r g s c = (if c \<le> 0 then Inl InvalidArgument else Inr (lookup_range r g s c))"

subsection \<open>The engine's aggregation\<close>

text \<open>
  Modelled from the spec: the decay weight and the four aggregations of the engine's
  \<open>aggregate\<close>, under the integer codes the wrapper passes (\<open>DECAYS\<close> and
  \<open>AGGREGATIONS\<close> below). The items of a source are the pairs of a variable value at a
  reached node and the node's distance under the impedance asked for.
\<close>

definition decay_weight :: "int \<Rightarrow> real \<Rightarrow> real \<Rightarrow> real" where
  "decay_weight decay d distance =
     (if decay = 2 then 1
      else if decay = 1 then max 0 (1 - d / distance)
      else exp (- d / distance))"

definition gather :: "nat \<Rightarrow> real list option list \<Rightarrow> (nat \<times> real) list \<Rightarrow> (real \<times> real) list" where
  "gather j L rows =
     concat (map (\<lambda>(i, v).
       (case (if i < length L then L ! i else None) of
          None \<Rightarrow> []
        | Some ds \<Rightarrow> [(v, imp j ds)])) rows)"

definition combine :: "int \<Rightarrow> int \<Rightarrow> real \<Rightarrow> (real \<times> real) list \<Rightarrow> real" where
  "combine agg decay distance items =
     (let wv = map (\<lambda>(v, d). (decay_weight decay d distance, v)) items;
          sw = sum_list (map fst wv);
          swv = sum_list (map (\<lambda>(w, v). w * v) wv)
      in if agg = 0 then swv
         else if agg = 1 then (if sw = 0 then 0 else swv / sw)
         else if agg = 5 then
           (if length wv < 2 \<or> sw = 0 then 0
            else sqrt (sum_list (map (\<lambda>(w, v). w * (v - swv / sw) ^ 2) wv) / sw))
         else sw)"

definition aggregate_sources ::
  "nat \<Rightarrow> egraph \<Rightarrow> real \<Rightarrow> (provenance \<times> real list option list) list" where
  "aggregate_sources r g distance = map (\<lambda>s. lookup_range r g s distance) [0..<length (g_xy g)]"

text \<open>
  Modelled from the spec: \<open>_pyaccess.get_all_aggregate_accessibility_variables\<close>, the
  engine's \<open>aggregate\<close>: a dense array with one value per node, ordered by dense node
  index. It is rejected for an unknown graph, variable, impedance, aggregation or decay
  and for a distance \<open>\<le> 0\<close>.
\<close>

definition get_all_aggregate_accessibility_variables ::
  "nat \<Rightarrow> real \<Rightarrow> nat \<Rightarrow> int \<Rightarrow> int \<Rightarrow> int \<Rightarrow> nat \<Rightarrow> world \<Rightarrow> error + real list" where
  "get_all_aggregate_accessibility_variables r distance varnum agg decay gno imp_num w =
     (case graph_at w gno of
        None \<Rightarrow> Inl InvalidArgument
      | Some g \<Rightarrow>
          if distance \<le> 0 then Inl InvalidArgument
          else if length (g_vars g) \<le> varnum then Inl UninitializedState
          else if g_k g \<le> imp_num \<or> agg \<notin> {0, 1, 5, 6} \<or> decay \<notin> {0, 1, 2}
          then Inl InvalidArgument
          else Inr (map (\<lambda>(_, L). combine agg decay distance (gather imp_num L (g_vars g ! varnum)))
                        (aggregate_sources r g distance)))"

subsection \<open>The engine's accessibility variables\<close>

text \<open>
  Modelled from the spec: \<open>_pyaccess.initialize_acc_vars\<close> and
  \<open>_pyaccess.initialize_acc_var\<close>, the engine's \<open>declareVariables\<close> and \<open>setVariable\<close>.
  The slots of a graph are declared by their count; a variable is written to a
  declared slot, with node indices and values of equal length and every index a valid
  dense node index.
\<close>

definition initialize_acc_vars :: "int \<Rightarrow> nat \<Rightarrow> world \<Rightarrow> (error + unit) \<times> world" where
  "initialize_acc_vars gno count w =
     (case graph_at w gno of
        None \<Rightarrow> (Inl InvalidArgument, w)
      | Some g \<Rightarrow>
          (Inr (), put_graph w gno (g\<lparr>g_vars := take count (g_vars g @ replicate count [])\<rparr>)))"

definition initialize_acc_var ::
  "int \<Rightarrow> nat \<Rightarrow> int list \<Rightarrow> real list \<Rightarrow> world \<Rightarrow> (error + unit) \<times> world" where
  "initialize_acc_var gno varnum idxs vals w =
     (case graph_at w gno of
        None \<Rightarrow> (Inl InvalidArgument, w)
      | Some g \<Rightarrow>
          if length (g_vars g) \<le> varnum then (Inl UninitializedState, w)
          else if length idxs \<noteq> length vals
                  \<or> (\<exists>i \<in> set idxs. i < 0 \<or> int (length (g_xy g)) \<le> i)
          then (Inl InvalidArgument, w)
          else (Inr (), put_graph w gno
                  (g\<lparr>g_vars := (g_vars g)[varnum := zip (map nat idxs) vals]\<rparr>)))"

subsection \<open>The engine's nearest-node mapping\<close>

text \<open>
  Modelled from the spec: \<open>_pyaccess.xy_to_node\<close>, the engine's \<open>nearestNode\<close>. Each
  point gets the dense index of the closest node, the first of them on a tie. With the
  unbounded sentinel \<open>-1\<close> every point is matched; otherwise a point whose nearest
  node is farther than the threshold gets \<open>-1\<close>, "no match". An empty point set
  gives an empty result.
\<close>

definition dist2 :: "real \<times> real \<Rightarrow> real \<times> real \<Rightarrow> real" where
  "dist2 p q = (fst p - fst q) ^ 2 + (snd p - snd q) ^ 2"

fun nearest_from ::
  "real \<times> real \<Rightarrow> (real \<times> real) list \<Rightarrow> nat \<Rightarrow> (nat \<times> real) option \<Rightarrow> (nat \<times> real) option" where
  "nearest_from p [] i best = best"
| "nearest_from p (q # qs) i best =
     nearest_from p qs (Suc i)
       (case best of
          None \<Rightarrow> Some (i, dist2 p q)
        | Some (j, d) \<Rightarrow> if dist2 p q < d then Some (i, dist2 p q) else Some (j, d))"

definition nearest_node :: "(real \<times> real) list \<Rightarrow> real \<times> real \<Rightarrow> (nat \<times> real) option" where
  "nearest_node xy p = nearest_from p xy 0 None"

definition match_node :: "(real \<times> real) list \<Rightarrow> real \<Rightarrow> real \<times> real \<Rightarrow> int" where
  "match_node xy maxd p =
     (case nearest_node xy p of
        None \<Rightarrow> - 1
      | Some (i, d) \<Rightarrow> if maxd \<noteq> - 1 \<and> maxd < sqrt d then - 1 else int i)"

definition xy_to_node :: "(real \<times> real) list \<Rightarrow> real \<Rightarrow> int \<Rightarrow> world \<Rightarrow> error + int list" where
  "xy_to_node pts maxd gno w =
     (case graph_at w gno of
        None \<Rightarrow> Inl InvalidArgument
      | Some g \<Rightarrow> Inr (map (match_node (g_xy g) maxd) pts))"

subsection \<open>The engine's facilities\<close>

text \<open>
  Modelled from the spec: \<open>_pyaccess.initialize_pois\<close>, \<open>_pyaccess.initialize_category\<close>
  and \<open>_pyaccess.find_all_nearest_pois\<close>, the engine's \<open>configure\<close>, \<open>setCategory\<close> and
  \<open>nearestFacilities\<close>. A category's point set is replaced by re-initialisation. The
  query fails if the category is unconfigured or the distance is \<open>\<le> 0\<close>; its search
  is the parameter \<open>knn\<close>, which gives the per-node lists of distances.
\<close>

definition initialize_pois :: "int \<Rightarrow> real \<Rightarrow> int \<Rightarrow> world \<Rightarrow> (error + unit) \<times> world" where
  "initialize_pois numcategories maxdist maxitems w =
     (Inr (), w\<lparr>poi_conf := Some (numcategories, maxdist, maxitems)\<rparr>)"

definition initialize_category ::
  "nat \<Rightarrow> (real option \<times> real option) list \<Rightarrow> world \<Rightarrow> (error + unit) \<times> world" where
  "initialize_category cat pts w =
     (Inr (), w\<lparr>poi_cats := (cat, pts) # filter (\<lambda>(c, _). c \<noteq> cat) (poi_cats w)\<rparr>)"

definition find_all_nearest_pois ::
  "(world \<Rightarrow> real \<Rightarrow> nat \<Rightarrow> real list list) \<Rightarrow> real \<Rightarrow> nat \<Rightarrow> world \<Rightarrow> error + real list list" where
  "find_all_nearest_pois knn distance cat w =
     (if map_of (poi_cats w) cat = None then Inl UninitializedState
      else if distance \<le> 0 then Inl InvalidArgument
      else Inr (knn w distance cat))"

subsection \<open>The methods of \<open>Network\<close>\<close>

text \<open>
  \<open>__init__\<close>. The docstring requires \<open>node_x\<close> and \<open>node_y\<close> to share one index, the
  node ids, and the edge columns to share theirs: \<open>nodes\<close> is the table of the two
  node columns, a row \<open>(id, x, y)\<close>; \<open>edges\<close> is the table of \<open>edge_from\<close>, \<open>edge_to\<close>
  and the rows of \<open>edge_weights\<close>, whose column names are \<open>columns\<close>. The slot is
  taken (\<open>take_slot\<close>) before the edges are mapped to node indexes (\<open>edge_indexes\<close>)
  and the engine is called. A missing index cannot be cast by \<open>astype('int32')\<close>.
\<close>

definition astype_int32 ::
  "(int \<times> nat option option \<times> nat option option) list \<Rightarrow> error + (int \<times> int) list" where
  "astype_int32 rows =
     (if length (dropna rows) = length rows
      then Inr (map (\<lambda>(l, a, b). (int32 (int a), int32 (int b))) (dropna rows))
      else Inl ValueError)"

definition take_slot :: "world \<Rightarrow> (error + int) \<times> world" where
  "take_slot w =
     (case (if MAX_NUM_NETWORKS w = 0 then reserve_num_graphs 1 w else (Inr (), w)) of
        (Inl e, w1) \<Rightarrow> (Inl e, w1)
      | (Inr _, w1) \<Rightarrow>
          if \<not> NUM_NETWORKS w1 < MAX_NUM_NETWORKS w1 then (Inl AssertionError, w1)
          else (Inr (NUM_NETWORKS w1), w1\<lparr>NUM_NETWORKS := NUM_NETWORKS w1 + 1\<rparr>))"

definition edge_indexes ::
  "(int \<times> nat) list \<Rightarrow> (int \<times> int \<times> real list) list \<Rightarrow> error + (int \<times> int) list" where
  "edge_indexes idx edges =
     (let labels = map int [0..<length edges] in
      case DataFrame2 (node_indexes idx (zip labels (map fst edges)))
                      (node_indexes idx (zip labels (map (fst \<circ> snd) edges))) of
        Inl e \<Rightarrow> Inl e
      | Inr df \<Rightarrow> astype_int32 df)"

definition Network_init ::
  "(int \<times> real \<times> real) list \<Rightarrow> (int \<times> int \<times> real list) list \<Rightarrow> string list \<Rightarrow> bool
     \<Rightarrow> world \<Rightarrow> (error + network) \<times> world" where
  "Network_init nodes edges columns twoway w =
     (case take_slot w of
        (Inl e, w1) \<Rightarrow> (Inl e, w1)
      | (Inr gno, w2) \<Rightarrow>
          let net = \<lparr> graph_no = gno, nodes_df = nodes, edges_df = edges,
                      impedance_names = columns, variable_names = [],
                      node_idx = zip (map fst nodes) [0..<length nodes] \<rparr>
          in case edge_indexes (node_idx net) edges of
               Inl e \<Rightarrow> (Inl e, w2)
             | Inr es \<Rightarrow>
                 (case create_graph (graph_no net) (map (int32 \<circ> fst) nodes) (map snd nodes)
                         es (map (snd \<circ> snd) edges) (length columns) twoway w2 of
                    (Inl e, w3) \<Rightarrow> (Inl e, w3)
                  | (Inr _, w3) \<Rightarrow> (Inr net, w3)))"

text \<open>
  \<open>set\<close>, in the order of the source: the frame of the variable and the node indexes
  (\<open>set_frame\<close>), the rows dropped and the report on them (\<open>set_report\<close>), the name
  appended and the slots declared if the name is new (\<open>set_name\<close>, \<open>set_declare\<close>), the
  rows written to the engine (\<open>set_store\<close>). With the name \<open>node_idx\<close> the dictionary of
  the frame has one key, and the variable is the column of indexes. The name is
  appended before the engine is called, and stays appended if the engine raises.
\<close>

definition index_of :: "'a \<Rightarrow> 'a list \<Rightarrow> nat" where
  "index_of x xs = length (takeWhile (\<lambda>y. y \<noteq> x) xs)"

definition set_frame ::
  "network \<Rightarrow> int series \<Rightarrow> real option series option \<Rightarrow> string
     \<Rightarrow> error + (int \<times> real option option \<times> nat option option) list" where
  "set_frame net ids variable name =
     (let var = (case variable of None \<Rightarrow> map (\<lambda>(l, _). (l, Some 1)) ids | Some v \<Rightarrow> v);
          idxs = node_indexes (node_idx net) ids
      in if name = ''node_idx''
         then Inr (map (\<lambda>(l, i). (l, Some (map_option real i), Some i)) idxs)
         else DataFrame2 var idxs)"

definition set_report :: "int \<Rightarrow> int \<Rightarrow> world \<Rightarrow> world" where
  "set_report l newl w =
     w\<lparr>stdout := stdout w @ (if newl - l > 0 then [Removed (newl - l)] else []) @ [Up]\<rparr>"

definition set_name :: "network \<Rightarrow> string \<Rightarrow> network" where
  "set_name net name =
     (if name \<notin> set (variable_names net)
      then net\<lparr>variable_names := variable_names net @ [name]\<rparr> else net)"

definition set_declare :: "network \<Rightarrow> string \<Rightarrow> world \<Rightarrow> (error + unit) \<times> world" where
  "set_declare net name w =
     (if name \<notin> set (variable_names net)
      then initialize_acc_vars (graph_no net) (length (variable_names (set_name net name))) w
      else (Inr (), w))"

definition set_store ::
  "network \<Rightarrow> string \<Rightarrow> (int \<times> real \<times> nat) list \<Rightarrow> world \<Rightarrow> (error + unit) \<times> world" where
  "set_store net1 name df w =
     (case initialize_acc_var (graph_no net1) (index_of name (variable_names net1))
             (map (\<lambda>(l, v, i). int32 (int i)) df) (map (\<lambda>(l, v, i). v) df)
             (w\<lparr>stdout := stdout w @ [Describe]\<rparr>) of
        (Inl e, w3) \<Rightarrow> (Inl e, w3)
      | (Inr _, w3) \<Rightarrow> (Inr (), w3\<lparr>stdout := stdout w3 @ [Elapsed]\<rparr>))"

definition Network_set ::
  "network \<Rightarrow> int series \<Rightarrow> real option series option \<Rightarrow> string \<Rightarrow> world
     \<Rightarrow> (error + unit) \<times> network \<times> world" where
  "Network_set net ids variable name w =
     (case set_frame net ids variable name of
        Inl e \<Rightarrow> (Inl e, net, w)
      | Inr df0 \<Rightarrow>
          (case set_declare net name (set_report (int (length df0)) (int (length (dropna df0))) w) of
             (Inl e, w2) \<Rightarrow> (Inl e, set_name net name, w2)
           | (Inr _, w2) \<Rightarrow>
               (case set_store (set_name net name) name (dropna df0) w2 of
                  (r, w3) \<Rightarrow> (r, set_name net name, w3))))"

text \<open>\<open>precompute\<close>; \<open>r\<close> is the engine's reference impedance.\<close>

definition Network_precompute :: "nat \<Rightarrow> network \<Rightarrow> real \<Rightarrow> world \<Rightarrow> (error + unit) \<times> world" where
  "Network_precompute r net distance w = precompute_range r distance (graph_no net) w"

text \<open>\<open>aggregate\<close>, with the module's two dictionaries and \<open>str.upper\<close> on ASCII.\<close>

definition AGGREGATIONS :: "(string \<times> int) list" where
  "AGGREGATIONS = [(''SUM'', 0), (''AVE'', 1), (''STD'', 5), (''COUNT'', 6)]"

definition DECAYS :: "(string \<times> int) list" where
  "DECAYS = [(''EXP'', 0), (''LINEAR'', 1), (''FLAT'', 2)]"

definition upper_char :: "char \<Rightarrow> char" where
  "upper_char c =
     (let n = (of_char c :: nat) in if 97 \<le> n \<and> n \<le> 122 then char_of (n - 32) else c)"

definition upper :: "string \<Rightarrow> string" where
  "upper s = map upper_char s"

definition Series :: "'a list \<Rightarrow> int list \<Rightarrow> error + 'a series" where
  "Series vals index = (if length vals = length index then Inr (zip index vals) else Inl ValueError)"

definition Network_aggregate ::
  "nat \<Rightarrow> network \<Rightarrow> real \<Rightarrow> string \<Rightarrow> string \<Rightarrow> string option \<Rightarrow> string \<Rightarrow> world
     \<Rightarrow> error + real series" where
  "Network_aggregate r net distance type decay imp_name name w =
     (case map_of AGGREGATIONS (upper type) of
        None \<Rightarrow> Inl KeyError
      | Some agg \<Rightarrow>
     (case map_of DECAYS (upper decay) of
        None \<Rightarrow> Inl KeyError
      | Some dec \<Rightarrow>
     (case (case imp_name of
              None \<Rightarrow> (case impedance_names net of [n] \<Rightarrow> Inr n | _ \<Rightarrow> Inl AssertionError)
            | Some n \<Rightarrow> Inr n) of
        Inl e \<Rightarrow> Inl e
      | Inr imp_name' \<Rightarrow>
          if imp_name' \<notin> set (impedance_names net) then Inl AssertionError
          else if name \<notin> set (variable_names net) then Inl AssertionError
          else
            (case get_all_aggregate_accessibility_variables r distance
                    (index_of name (variable_names net)) agg dec (graph_no net)
                    (index_of imp_name' (impedance_names net)) w of
               Inl e \<Rightarrow> Inl e
             | Inr res \<Rightarrow> Series res (node_ids net)))))"

text \<open>\<open>get_node_ids\<close>; the default of \<open>mapping_distance\<close> is \<open>-1\<close>.\<close>

definition Network_get_node_ids ::
  "network \<Rightarrow> real option series \<Rightarrow> real option series \<Rightarrow> real \<Rightarrow> world \<Rightarrow> error + int series" where
  "Network_get_node_ids net x_col y_col mapping_distance w =
     (case DataFrame2 x_col y_col of
        Inl e \<Rightarrow> Inl e
      | Inr df \<Rightarrow>
          let xys = dropna df in
          (case xy_to_node (map snd xys) mapping_distance (graph_no net) w of
             Inl e \<Rightarrow> Inl e
           | Inr ids \<Rightarrow>
               (case Series ids (map fst xys) of
                  Inl e \<Rightarrow> Inl e
                | Inr s \<Rightarrow> Inr (filter (\<lambda>(l, v). v \<noteq> - 1) s))))"

text \<open>The facility methods. An unbound global name raises \<open>NameError\<close> where it is read.\<close>

definition Network_initialize_pois :: "int \<Rightarrow> real \<Rightarrow> int \<Rightarrow> world \<Rightarrow> (error + unit) \<times> world" where
  "Network_initialize_pois numcategories maxdist maxitems w =
     initialize_pois numcategories maxdist maxitems w"

definition Network_initialize_poi_category ::
  "string \<Rightarrow> real series \<Rightarrow> real series \<Rightarrow> world \<Rightarrow> (error + unit) \<times> world" where
  "Network_initialize_poi_category category xcol ycol w =
     (case CAT_NAME_TO_IND w of
        None \<Rightarrow> (Inl NameError, w)
      | Some d \<Rightarrow>
          let d1 = (if category \<notin> fst ` set d then d @ [(category, length d)] else d);
              w1 = w\<lparr>CAT_NAME_TO_IND := Some d1\<rparr>
          in case DataFrame2 xcol ycol of
               Inl e \<Rightarrow> (Inl e, w1)
             | Inr df \<Rightarrow>
                 (case map_of d1 category of
                    None \<Rightarrow> (Inl KeyError, w1)
                  | Some c \<Rightarrow>
                      initialize_category c (map snd df) (w1\<lparr>stdout := stdout w1 @ [Describe]\<rparr>)))"

definition Network_compute_nearest_pois ::
  "(world \<Rightarrow> real \<Rightarrow> nat \<Rightarrow> real list list) \<Rightarrow> real \<Rightarrow> string \<Rightarrow> world \<Rightarrow> error + real list list" where
  "Network_compute_nearest_pois knn distance category w =
     (case CAT_NAME_TO_IND w of
        None \<Rightarrow> Inl NameError
      | Some d \<Rightarrow>
          (case map_of d category of
             None \<Rightarrow> Inl AssertionError
           | Some c \<Rightarrow> find_all_nearest_pois knn distance c w))"

subsection \<open>Runs of the module\<close>

text \<open>
  The calls that change the state of the module or of the engine, and a run of them
  from a given state. The networks built along a run are collected in order. A call on
  a network names the network object it is made on.
\<close>

datatype call =
    Reserve int
  | New "(int \<times> real \<times> real) list" "(int \<times> int \<times> real list) list" "string list" bool
  | SetVar network "int series" "real option series option" string
  | Precompute nat network real
  | InitPois int real int
  | InitPoiCategory string "real series" "real series"

fun exec :: "call \<Rightarrow> world \<Rightarrow> world" where
  "exec (Reserve num) w = snd (reserve_num_graphs num w)"
| "exec (New nodes edges columns twoway) w = snd (Network_init nodes edges columns twoway w)"
| "exec (SetVar net ids variable name) w = snd (snd (Network_set net ids variable name w))"
| "exec (Precompute r net distance) w = snd (Network_precompute r net distance w)"
| "exec (InitPois numcategories maxdist maxitems) w =
     snd (Network_initialize_pois numcategories maxdist maxitems w)"
| "exec (InitPoiCategory category xcol ycol) w =
     snd (Network_initialize_poi_category category xcol ycol w)"

definition run :: "call list \<Rightarrow> world \<Rightarrow> world" where
  "run cs w = fold exec cs w"

fun constructed :: "call list \<Rightarrow> world \<Rightarrow> network list" where
  "constructed [] w = []"
| "constructed (New nodes edges columns twoway # cs) w =
     (case fst (Network_init nodes edges columns twoway w) of
        Inl e \<Rightarrow> constructed cs (exec (New nodes edges columns twoway) w)
      | Inr net \<Rightarrow> net # constructed cs (exec (New nodes edges columns twoway) w))"
| "constructed (c # cs) w = constructed cs (exec c w)"

subsection \<open>Well-formed states\<close>

text \<open>
  A state in which the counters of the module and the slot table of the engine agree:
  the number of networks is within the capacity, and the table exists, with the
  capacity as its length, exactly if the capacity is set.
\<close>

definition consistent :: "world \<Rightarrow> bool" where
  "consistent w =
     (0 \<le> NUM_NETWORKS w \<and> NUM_NETWORKS w \<le> MAX_NUM_NETWORKS w \<and>
      (case slots w of
         None \<Rightarrow> MAX_NUM_NETWORKS w = 0
       | Some tbl \<Rightarrow> 0 < MAX_NUM_NETWORKS w \<and> int (length tbl) = MAX_NUM_NETWORKS w))"

text \<open>Two states with the same globals, the same facilities and the same number of slots.\<close>

definition same_globals :: "world \<Rightarrow> world \<Rightarrow> bool" where
  "same_globals w w' =
     (MAX_NUM_NETWORKS w' = MAX_NUM_NETWORKS w \<and> NUM_NETWORKS w' = NUM_NETWORKS w \<and>
      CAT_NAME_TO_IND w' = CAT_NAME_TO_IND w \<and> poi_cats w' = poi_cats w \<and>
      map_option length (slots w') = map_option length (slots w))"


text \<open>
  The arcs of a graph as \<open>create_graph\<close> admits them: one weight per impedance, none
  negative.
\<close>

definition arcs_ok :: "nat \<Rightarrow> (nat \<times> nat \<times> real list) list \<Rightarrow> bool" where
  "arcs_ok k arcs = (\<forall>(a, v, ws) \<in> set arcs. length ws = k \<and> (\<forall>x \<in> set ws. 0 \<le> x))"

text \<open>
  The inputs of the constructor that its docstring describes: the node ids are distinct
  and few enough for a 32-bit index, every edge joins two of them and carries one weight,
  not negative, for each impedance column.
\<close>

definition well_formed ::
  "(int \<times> real \<times> real) list \<Rightarrow> (int \<times> int \<times> real list) list \<Rightarrow> string list \<Rightarrow> bool" where
  "well_formed nodes edges columns =
     (distinct (map fst nodes) \<and> length nodes < 2147483648 \<and>
      (\<forall>(a, b, ws) \<in> set edges.
         a \<in> fst ` set nodes \<and> b \<in> fst ` set nodes \<and>
         length ws = length columns \<and> (\<forall>x \<in> set ws. 0 \<le> x)))"

text \<open>
  A network object and the engine agree if the slot of the network holds a graph with
  as many nodes, variable slots and impedances as the object records, the object's
  node indexes are the dense indexes in order, and the arcs are as the engine admits
  them.
\<close>

definition bound :: "network \<Rightarrow> world \<Rightarrow> bool" where
  "bound net w =
     (case graph_at w (graph_no net) of
        None \<Rightarrow> False
      | Some g \<Rightarrow>
          length (g_xy g) = length (node_idx net) \<and>
          length (g_vars g) = length (variable_names net) \<and>
          g_k g = length (impedance_names net) \<and>
          map snd (node_idx net) = [0..<length (node_idx net)] \<and>
          length (node_idx net) < 2147483648 \<and>
          arcs_ok (g_k g) (g_arcs g))"

text \<open>A slot of the engine that holds a graph.\<close>

definition occupied :: "world \<Rightarrow> int \<Rightarrow> bool" where
  "occupied w i = (graph_at w i \<noteq> None)"

text \<open>A small network, used where a statement is evaluated on an example.\<close>

definition nodes0 :: "(int \<times> real \<times> real) list" where
  "nodes0 = [(10, 0, 0), (20, 1, 0), (30, 2, 0)]"

definition edges0 :: "(int \<times> int \<times> real list) list" where
  "edges0 = [(10, 20, [1]), (20, 30, [1])]"

text \<open>An edge table whose one edge ends at an id that is no node of \<open>nodes0\<close>.\<close>

definition edges_bad :: "(int \<times> int \<times> real list) list" where
  "edges_bad = [(10, 99, [1])]"

text \<open>
  A state in which the name \<open>CAT_NAME_TO_IND\<close> has been bound from outside the module
  and one category is configured.
\<close>

definition world0 :: world where
  "world0 = initial\<lparr>CAT_NAME_TO_IND := Some [(''shops'', 0)], poi_cats := [(0, [(Some 1, Some 1)])]\<rparr>"

text \<open>
  A sequence of calls of \<open>set\<close> on one network object: each call works on the object
  and the state the call before it left.
\<close>

fun set_all ::
  "network \<Rightarrow> (int series \<times> real option series option \<times> string) list \<Rightarrow> world \<Rightarrow> network \<times> world" where
  "set_all net [] w = (net, w)"
| "set_all net ((ids, variable, name) # cs) w =
     set_all (fst (snd (Network_set net ids variable name w))) cs
             (snd (snd (Network_set net ids variable name w)))"

text \<open>
  The network of \<open>nodes0\<close> and \<open>edges0\<close> as the constructor returns it in the initial
  state, the state it leaves, and the object and state after one call of \<open>set\<close> with
  a row of unknown node id and a row of missing value.
\<close>

definition example_net :: network where
  "example_net = \<lparr> graph_no = 0, nodes_df = nodes0, edges_df = edges0, impedance_names = [''dist''],
            variable_names = [], node_idx = [(10, 0), (20, 1), (30, 2)] \<rparr>"

definition example_graph :: egraph where
  "example_graph = \<lparr> g_ids = [10, 20, 30], g_xy = [(0, 0), (1, 0), (2, 0)],
              g_arcs = [(0, 1, [1]), (1, 0, [1]), (1, 2, [1]), (2, 1, [1])],
              g_k = 1, g_vars = [], g_cache = None \<rparr>"

definition example_world :: world where
  "example_world = \<lparr> MAX_NUM_NETWORKS = 1, NUM_NETWORKS = 1, CAT_NAME_TO_IND = None,
              slots = Some [Some example_graph], poi_conf = None, poi_cats = [], stdout = [] \<rparr>"

definition example_calls :: "(int series \<times> real option series option \<times> string) list" where
  "example_calls = [([(0, 10), (1, 30), (2, 77)], Some [(0, Some 5), (1, None), (2, Some 3)], ''pop'')]"

definition example_net_set :: network where
  "example_net_set = fst (set_all example_net example_calls example_world)"

definition example_world_set :: world where
  "example_world_set = snd (set_all example_net example_calls example_world)"

text \<open>
  The rows of a call of \<open>set\<close> that reach the engine, as the claim about \<open>set\<close>
  describes them: a row whose node id is the id of a node and whose value is not missing
  gives the node's index and the value; any other row gives nothing.
\<close>

definition kept_rows :: "(int \<times> nat) list \<Rightarrow> int series \<Rightarrow> real option list \<Rightarrow> (nat \<times> real) list" where
  "kept_rows idx ids vals =
     concat (map (\<lambda>((l, i), x).
       (case (x, map_of idx i) of (Some v, Some k) \<Rightarrow> [(k, v)] | _ \<Rightarrow> [])) (zip ids vals))"

section \<open>Termination of the search\<close>

lemma pop_min_length: "pop_min r x xs = (m, rest) \<Longrightarrow> length rest = length xs"
  by (induction xs arbitrary: x m rest) (auto split: prod.splits if_splits)

lemma length_pop_min: "length (snd (pop_min r x xs)) = length xs"
  by (cases "pop_min r x xs") (simp add: pop_min_length)

lemma unsettled_update:
  "u < length L \<Longrightarrow> L ! u = None \<Longrightarrow> unsettled (L[u := Some d]) < unsettled L"
proof (induction L arbitrary: u)
  case Nil
  then show ?case by simp
next
  case (Cons a L)
  show ?case
  proof (cases u)
    case 0
    with Cons.prems show ?thesis by (simp add: unsettled_def)
  next
    case (Suc v)
    with Cons.prems have "unsettled (L[v := Some d]) < unsettled L"
      by (intro Cons.IH) simp_all
    with Suc show ?thesis by (simp add: unsettled_def)
  qed
qed

termination search
proof (relation "measures [\<lambda>(arcs, r, c, L, F). unsettled L, \<lambda>(arcs, r, c, L, F). length F]")
  show "wf (measures [\<lambda>(arcs, r, c, L, F). unsettled L, \<lambda>(arcs, r, c, L, F). length F])"
    by simp
next
  fix arcs :: "(nat \<times> nat \<times> real list) list" and r :: nat and c :: real
    and L :: "real list option list" and x :: label and xs :: "label list"
    and m :: label and rest :: "label list"
  assume "m = fst (pop_min r x xs)" "rest = snd (pop_min r x xs)"
    "\<not> c < imp r (fst m)" "snd m < length L \<and> L ! snd m = None"
  then show "((arcs, r, c, L[snd m := Some (fst m)], rest @ extend arcs m), (arcs, r, c, L, x # xs))
      \<in> measures [\<lambda>(arcs, r, c, L, F). unsettled L, \<lambda>(arcs, r, c, L, F). length F]"
    by (simp add: unsettled_update)
next
  fix arcs :: "(nat \<times> nat \<times> real list) list" and r :: nat and c :: real
    and L :: "real list option list" and x :: label and xs :: "label list"
    and m :: label and rest :: "label list"
  assume "m = fst (pop_min r x xs)" "rest = snd (pop_min r x xs)"
  then show "((arcs, r, c, L, rest), (arcs, r, c, L, x # xs))
      \<in> measures [\<lambda>(arcs, r, c, L, F). unsettled L, \<lambda>(arcs, r, c, L, F). length F]"
    by (simp add: length_pop_min)
qed

declare search.simps [simp del]

section \<open>The states of a run\<close>

lemma same_globals_refl: "same_globals w w"
  by (simp add: same_globals_def)

lemma same_globals_trans: "same_globals a b \<Longrightarrow> same_globals b c \<Longrightarrow> same_globals a c"
  by (simp add: same_globals_def)

lemma same_globals_put_graph: "same_globals w (put_graph w gno g)"
  by (cases "slots w") (simp_all add: same_globals_def put_graph_def)

lemma same_globals_stdout: "same_globals w (w\<lparr>stdout := out\<rparr>)"
  by (simp add: same_globals_def)

lemma same_globals_initialize_acc_vars: "same_globals w (snd (initialize_acc_vars gno n w))"
  by (simp add: initialize_acc_vars_def same_globals_put_graph same_globals_refl split: option.splits)

lemma same_globals_initialize_acc_var: "same_globals w (snd (initialize_acc_var gno n idxs vals w))"
  by (simp add: initialize_acc_var_def same_globals_put_graph same_globals_refl split: option.splits)

lemma same_globals_precompute: "same_globals w (snd (Network_precompute r net d w))"
  by (simp add: Network_precompute_def precompute_range_def same_globals_put_graph same_globals_refl
      split: option.splits)

lemma same_globals_initialize_pois: "same_globals w (snd (Network_initialize_pois a b c w))"
  by (simp add: Network_initialize_pois_def initialize_pois_def same_globals_def)

lemma same_globals_set_declare: "same_globals w (snd (set_declare net name w))"
  by (simp add: set_declare_def same_globals_initialize_acc_vars same_globals_refl)

lemma same_globals_set_report: "same_globals w (set_report l n w)"
  by (simp add: set_report_def same_globals_def)

lemma same_globals_set_store: "same_globals w (snd (set_store net name df w))"
proof -
  let ?w1 = "w\<lparr>stdout := stdout w @ [Describe]\<rparr>"
  let ?r = "initialize_acc_var (graph_no net) (index_of name (variable_names net))
             (map (\<lambda>(l, v, i). int32 (int i)) df) (map (\<lambda>(l, v, i). v) df) ?w1"
  have "same_globals w (snd ?r)"
    by (rule same_globals_trans [OF same_globals_stdout same_globals_initialize_acc_var])
  then show ?thesis
    by (cases ?r) (auto simp: set_store_def same_globals_def split: sum.splits)
qed

lemma same_globals_set: "same_globals w (snd (snd (Network_set net ids variable name w)))"
proof (cases "set_frame net ids variable name")
  case (Inl e)
  then show ?thesis by (simp add: Network_set_def same_globals_refl)
next
  case (Inr df0)
  let ?w1 = "set_report (int (length df0)) (int (length (dropna df0))) w"
  obtain r2 w2 where d: "set_declare net name ?w1 = (r2, w2)" by (cases "set_declare net name ?w1")
  have "same_globals ?w1 w2" using same_globals_set_declare [of ?w1 net name] d by simp
  with same_globals_set_report have w2: "same_globals w w2" by (rule same_globals_trans)
  show ?thesis
  proof (cases r2)
    case (Inl e)
    with Inr d w2 show ?thesis by (simp add: Network_set_def)
  next
    case r2: (Inr u)
    obtain r3 w3 where st: "set_store (set_name net name) name (dropna df0) w2 = (r3, w3)"
      by (cases "set_store (set_name net name) name (dropna df0) w2")
    have "same_globals w2 w3" using same_globals_set_store [of w2 "set_name net name" name "dropna df0"] st
      by simp
    with w2 have "same_globals w w3" by (rule same_globals_trans)
    with Inr d r2 st show ?thesis by (simp add: Network_set_def)
  qed
qed

lemma reserve_cases:
  "reserve_num_graphs num w =
     (if MAX_NUM_NETWORKS w = 0 \<and> 0 < num
      then (if slots w = None
            then (Inr (), w\<lparr>MAX_NUM_NETWORKS := num, slots := Some (replicate (nat num) None)\<rparr>)
            else (Inl ConfigurationError, w\<lparr>MAX_NUM_NETWORKS := num\<rparr>))
      else (Inl AssertionError, w))"
  by (auto simp: reserve_num_graphs_def create_graphs_def)

lemma consistent_reserve: "consistent w \<Longrightarrow> consistent (snd (reserve_num_graphs num w))"
  by (auto simp: reserve_cases consistent_def split: option.splits)

lemma consistent_same: "same_globals w w' \<Longrightarrow> consistent w \<Longrightarrow> consistent w'"
  by (cases "slots w"; cases "slots w'") (auto simp: same_globals_def consistent_def)

lemma create_graph_globals:
  "same_globals w (snd (create_graph gno ids xy es ws k twoway w))"
  by (auto simp: create_graph_def same_globals_def split: option.splits)

lemma consistent_take_slot: "consistent w \<Longrightarrow> consistent (snd (take_slot w))"
  by (auto simp: take_slot_def reserve_cases consistent_def split: option.splits)

lemma init_world:
  "same_globals (snd (take_slot w)) (snd (Network_init nodes edges columns twoway w))"
proof -
  define w' where "w' = snd (Network_init nodes edges columns twoway w)"
  then have a: "snd (Network_init nodes edges columns twoway w) = w'" by simp
  have "same_globals (snd (take_slot w)) w'"
  proof -
  obtain r1 w1 where t: "take_slot w = (r1, w1)" by (cases "take_slot w")
  show ?thesis
  proof (cases r1)
    case (Inl e)
    with t a show ?thesis by (auto simp: Network_init_def same_globals_refl)
  next
    case (Inr gno)
    let ?idx = "zip (map fst nodes) [0..<length nodes]"
    show ?thesis
    proof (cases "edge_indexes ?idx edges")
      case (Inl e)
      with Inr t a show ?thesis by (auto simp: Network_init_def same_globals_refl)
    next
      case es: (Inr es)
      let ?c = "create_graph gno (map (int32 \<circ> fst) nodes) (map snd nodes)
                  es (map (snd \<circ> snd) edges) (length columns) twoway w1"
      have "same_globals w1 (snd ?c)" by (rule create_graph_globals)
      moreover have "w' = snd ?c"
        using Inr t a es by (cases ?c) (auto simp: Network_init_def split: sum.splits)
      ultimately show ?thesis using t by simp
    qed
  qed
  qed
  then show ?thesis by (simp add: w'_def)
qed

lemma consistent_init: "consistent w \<Longrightarrow> consistent (snd (Network_init nodes edges columns twoway w))"
  using init_world consistent_take_slot consistent_same by blast

lemma poi_category_globals:
  "CAT_NAME_TO_IND w = None \<Longrightarrow> Network_initialize_poi_category c x y w = (Inl NameError, w)"
  by (simp add: Network_initialize_poi_category_def)

lemma same_globals_keeps:
  "same_globals w w' \<Longrightarrow> consistent w \<Longrightarrow> CAT_NAME_TO_IND w = None \<Longrightarrow>
   consistent w' \<and> CAT_NAME_TO_IND w' = None"
proof -
  assume a: "same_globals w w'" "consistent w" "CAT_NAME_TO_IND w = None"
  from a(1,2) have "consistent w'" by (rule consistent_same)
  moreover from a(1,3) have "CAT_NAME_TO_IND w' = None" by (simp add: same_globals_def)
  ultimately show ?thesis by simp
qed

lemma consistent_exec:
  assumes "consistent w" "CAT_NAME_TO_IND w = None"
  shows "consistent (exec c w) \<and> CAT_NAME_TO_IND (exec c w) = None"
proof (cases c)
  case (Reserve num)
  have "CAT_NAME_TO_IND (snd (reserve_num_graphs num w)) = CAT_NAME_TO_IND w"
    by (simp add: reserve_cases)
  with Reserve assms show ?thesis by (simp add: consistent_reserve)
next
  case (New nodes edges columns twoway)
  have "CAT_NAME_TO_IND (snd (take_slot w)) = CAT_NAME_TO_IND w"
    by (auto simp: take_slot_def reserve_cases)
  with New assms init_world [of w nodes edges columns twoway] show ?thesis
    by (auto simp: consistent_init same_globals_def)
next
  case (SetVar net ids variable name)
  with assms same_globals_keeps [OF same_globals_set [of w net ids variable name]] show ?thesis
    by simp
next
  case (Precompute r net d)
  with assms same_globals_keeps [OF same_globals_precompute [of w r net d]] show ?thesis
    by simp
next
  case (InitPois a b c)
  with assms same_globals_keeps [OF same_globals_initialize_pois [of w a b c]] show ?thesis
    by simp
next
  case (InitPoiCategory c x y)
  with assms show ?thesis by (simp add: poi_category_globals)
qed

lemma consistent_run: "consistent w \<Longrightarrow> CAT_NAME_TO_IND w = None \<Longrightarrow>
   consistent (run cs w) \<and> CAT_NAME_TO_IND (run cs w) = None"
  unfolding run_def
  by (induction cs arbitrary: w) (simp_all add: consistent_exec)

lemma consistent_initial: "consistent initial \<and> CAT_NAME_TO_IND initial = None"
  by (simp add: consistent_def initial_def)

lemma MAX_exec:
  assumes "MAX_NUM_NETWORKS w \<noteq> 0"
  shows "MAX_NUM_NETWORKS (exec c w) = MAX_NUM_NETWORKS w"
proof (cases c)
  case (Reserve num)
  with assms show ?thesis by (simp add: reserve_cases)
next
  case (New nodes edges columns twoway)
  have "MAX_NUM_NETWORKS (snd (take_slot w)) = MAX_NUM_NETWORKS w"
    using assms by (auto simp: take_slot_def)
  with New init_world [of w nodes edges columns twoway] show ?thesis
    by (simp add: same_globals_def)
next
  case (SetVar net ids variable name)
  with same_globals_set [of w net ids variable name] show ?thesis by (simp add: same_globals_def)
next
  case (Precompute r net d)
  with same_globals_precompute [of w r net d] show ?thesis by (simp add: same_globals_def)
next
  case (InitPois a b c)
  with same_globals_initialize_pois [of w a b c] show ?thesis by (simp add: same_globals_def)
next
  case (InitPoiCategory c x y)
  then show ?thesis
    by (auto simp: Network_initialize_poi_category_def initialize_category_def Let_def
        split: option.splits sum.splits)
qed

lemma MAX_run: "MAX_NUM_NETWORKS w \<noteq> 0 \<Longrightarrow> MAX_NUM_NETWORKS (run cs w) = MAX_NUM_NETWORKS w"
  unfolding run_def
  by (induction cs arbitrary: w) (simp_all add: MAX_exec)

section \<open>Reserving capacity\<close>

text \<open>
  C5. In every state a run of the module can reach, \<open>reserve_num_graphs num\<close> raises
  and changes nothing if \<open>num \<le> 0\<close> or if the capacity is already set. If the capacity
  is not set and \<open>num > 0\<close> it succeeds and sets the maximum number of graphs to \<open>num\<close>;
  after that, whatever is called, the maximum stays \<open>num\<close> and every further call of
  \<open>reserve_num_graphs\<close> raises.
\<close>

theorem reserve_num_graphs_once:
  assumes "w = run cs initial"
  shows "(num \<le> 0 \<or> MAX_NUM_NETWORKS w \<noteq> 0 \<longrightarrow>
            reserve_num_graphs num w = (Inl AssertionError, w)) \<and>
         (0 < num \<and> MAX_NUM_NETWORKS w = 0 \<longrightarrow>
            fst (reserve_num_graphs num w) = Inr () \<and>
            MAX_NUM_NETWORKS (snd (reserve_num_graphs num w)) = num \<and>
            (\<forall>cs' num'. MAX_NUM_NETWORKS (run cs' (snd (reserve_num_graphs num w))) = num \<and>
               reserve_num_graphs num' (run cs' (snd (reserve_num_graphs num w)))
                 = (Inl AssertionError, run cs' (snd (reserve_num_graphs num w)))))"
proof (intro conjI impI)
  assume "num \<le> 0 \<or> MAX_NUM_NETWORKS w \<noteq> 0"
  then show "reserve_num_graphs num w = (Inl AssertionError, w)"
    by (auto simp: reserve_cases)
next
  assume a: "0 < num \<and> MAX_NUM_NETWORKS w = 0"
  have "consistent w" using assms consistent_run [OF conjunct1 [OF consistent_initial] conjunct2 [OF consistent_initial]]
    by simp
  with a have none: "slots w = None" by (auto simp: consistent_def split: option.splits)
  with a show ok: "fst (reserve_num_graphs num w) = Inr ()" by (simp add: reserve_cases)
  from a none show m: "MAX_NUM_NETWORKS (snd (reserve_num_graphs num w)) = num"
    by (simp add: reserve_cases)
  show "\<forall>cs' num'. MAX_NUM_NETWORKS (run cs' (snd (reserve_num_graphs num w))) = num \<and>
               reserve_num_graphs num' (run cs' (snd (reserve_num_graphs num w)))
                 = (Inl AssertionError, run cs' (snd (reserve_num_graphs num w)))"
  proof (intro allI)
    fix cs' num'
    have "MAX_NUM_NETWORKS (run cs' (snd (reserve_num_graphs num w))) = num"
      using MAX_run [of "snd (reserve_num_graphs num w)" cs'] m a by simp
    with a show "MAX_NUM_NETWORKS (run cs' (snd (reserve_num_graphs num w))) = num \<and>
               reserve_num_graphs num' (run cs' (snd (reserve_num_graphs num w)))
                 = (Inl AssertionError, run cs' (snd (reserve_num_graphs num w)))"
      by (simp add: reserve_cases)
  qed
qed

theorem reserve_num_graphs_once_witness:
  "run [] initial = run [] initial \<and> (0::int) < 2 \<and> MAX_NUM_NETWORKS (run [] initial) = 0 \<and>
   reserve_num_graphs 0 (run [] initial) = (Inl AssertionError, run [] initial) \<and>
   fst (reserve_num_graphs 2 (run [] initial)) = Inr () \<and>
   MAX_NUM_NETWORKS (snd (reserve_num_graphs 2 (run [] initial))) = 2 \<and>
   fst (reserve_num_graphs 5 (run [Reserve 7] (snd (reserve_num_graphs 2 (run [] initial)))))
     = Inl AssertionError"
proof -
  have m: "MAX_NUM_NETWORKS (run [] initial) = 0" by (simp add: run_def initial_def)
  from reserve_num_graphs_once [OF refl, of 0 "[]"] reserve_num_graphs_once [OF refl, of 2 "[]"] m
  show ?thesis by simp
qed

section \<open>Constructing networks\<close>

lemma take_slot_cases:
  assumes "consistent w"
  shows "take_slot w =
     (if MAX_NUM_NETWORKS w = 0
      then (Inr 0, w\<lparr>MAX_NUM_NETWORKS := 1, slots := Some [None], NUM_NETWORKS := 1\<rparr>)
      else if NUM_NETWORKS w < MAX_NUM_NETWORKS w
      then (Inr (NUM_NETWORKS w), w\<lparr>NUM_NETWORKS := NUM_NETWORKS w + 1\<rparr>)
      else (Inl AssertionError, w))"
proof (cases "MAX_NUM_NETWORKS w = 0")
  case True
  with assms have "slots w = None" "NUM_NETWORKS w = 0"
    by (auto simp: consistent_def split: option.splits)
  with True show ?thesis by (simp add: take_slot_def reserve_cases)
next
  case False
  then show ?thesis by (simp add: take_slot_def)
qed

lemma init_result:
  "Network_init nodes edges columns twoway w = (Inr net, w') \<Longrightarrow>
   (\<exists>w1. take_slot w = (Inr (graph_no net), w1) \<and> same_globals w1 w') \<and>
   node_idx net = zip (map fst nodes) [0..<length nodes] \<and>
   impedance_names net = columns \<and> variable_names net = []"
proof -
  assume a: "Network_init nodes edges columns twoway w = (Inr net, w')"
  obtain r1 w1 where t: "take_slot w = (r1, w1)" by (cases "take_slot w")
  from a t obtain gno where r1: "r1 = Inr gno" by (cases r1) (auto simp: Network_init_def)
  from a t r1 have net: "net = \<lparr> graph_no = gno, nodes_df = nodes, edges_df = edges,
                      impedance_names = columns, variable_names = [],
                      node_idx = zip (map fst nodes) [0..<length nodes] \<rparr>"
    by (auto simp: Network_init_def Let_def split: sum.splits prod.splits)
  have "same_globals w1 w'" using init_world [of w nodes edges columns twoway] t a by simp
  with t r1 net show ?thesis by simp
qed

lemma init_gate_closed:
  assumes "consistent w" "MAX_NUM_NETWORKS w \<noteq> 0" "MAX_NUM_NETWORKS w \<le> NUM_NETWORKS w"
  shows "Network_init nodes edges columns twoway w = (Inl AssertionError, w)"
  using assms by (simp add: Network_init_def take_slot_cases)

lemma NUM_take_slot:
  assumes "consistent w"
  shows "NUM_NETWORKS w \<le> NUM_NETWORKS (snd (take_slot w)) \<and>
     NUM_NETWORKS (snd (take_slot w)) \<le> NUM_NETWORKS w + 1"
proof -
  from assms have "0 \<le> NUM_NETWORKS w" "NUM_NETWORKS w \<le> MAX_NUM_NETWORKS w"
    by (simp_all add: consistent_def)
  then show ?thesis by (auto simp: take_slot_cases [OF assms])
qed

lemma NUM_exec:
  assumes "consistent w"
  shows "NUM_NETWORKS w \<le> NUM_NETWORKS (exec c w)"
proof (cases c)
  case (Reserve num)
  then show ?thesis by (simp add: reserve_cases)
next
  case (New nodes edges columns twoway)
  with NUM_take_slot [OF assms] init_world [of w nodes edges columns twoway] show ?thesis
    by (simp add: same_globals_def)
next
  case (SetVar net ids variable name)
  with same_globals_set [of w net ids variable name] show ?thesis by (simp add: same_globals_def)
next
  case (Precompute r net d)
  with same_globals_precompute [of w r net d] show ?thesis by (simp add: same_globals_def)
next
  case (InitPois a b c)
  with same_globals_initialize_pois [of w a b c] show ?thesis by (simp add: same_globals_def)
next
  case (InitPoiCategory c x y)
  then show ?thesis
    by (auto simp: Network_initialize_poi_category_def initialize_category_def Let_def
        split: option.splits sum.splits)
qed

lemma filter_key_distinct:
  "distinct (map fst idx) \<Longrightarrow>
   map snd (filter (\<lambda>(j, _). j = i) idx) = (case map_of idx i of None \<Rightarrow> [] | Some k \<Rightarrow> [k])"
proof (induction idx)
  case Nil
  then show ?case by simp
next
  case (Cons p idx)
  obtain j k where p: "p = (j, k)" by (cases p)
  show ?case
  proof (cases "j = i")
    case True
    with Cons.prems p have "map_of idx i = None"
      by (simp add: map_of_eq_None_iff)
    with Cons p True show ?thesis by simp
  next
    case False
    with Cons p show ?thesis by simp
  qed
qed

lemma node_indexes_distinct:
  "distinct (map fst idx) \<Longrightarrow> \<forall>(l, i) \<in> set col. i \<in> fst ` set idx \<Longrightarrow>
   node_indexes idx col = map (\<lambda>(l, i). (l, map_of idx i)) col"
proof (induction col)
  case Nil
  then show ?case by (simp add: node_indexes_def)
next
  case (Cons p col)
  obtain l i where p: "p = (l, i)" by (cases p)
  with Cons.prems(2) have "i \<in> fst ` set idx" by simp
  then obtain k where k: "map_of idx i = Some k"
    by (metis map_of_eq_None_iff not_Some_eq)
  have "node_indexes idx (p # col) = (l, Some k) # node_indexes idx col"
    using p k by (simp add: node_indexes_def filter_key_distinct [OF Cons.prems(1)])
  with Cons p k show ?case by simp
qed

lemma edge_frame:
  assumes "length ls = length edges"
  shows "map (\<lambda>((l, x), (_, y)). (l, Some x, Some y))
           (zip (map (\<lambda>(l, i). (l, f i)) (zip ls (map fst edges)))
                (map (\<lambda>(l, i). (l, f i)) (zip ls (map (fst \<circ> snd) edges))))
         = map (\<lambda>(l, (a, b, ws)). (l, Some (f a), Some (f b))) (zip ls edges)"
  using assms by (induction ls edges rule: list_induct2) auto

lemma dropna_present:
  "dropna (map (\<lambda>(l, (a, b, ws)). (l, Some (Some (f a)), Some (Some (g b)))) rows)
     = map (\<lambda>(l, (a, b, ws)). (l, f a, g b)) rows"
  by (induction rows) (auto simp: dropna_def)

lemma edge_indexes_ok:
  assumes "distinct (map fst idx)"
    and "\<forall>(a, b, ws) \<in> set edges. a \<in> fst ` set idx \<and> b \<in> fst ` set idx"
  shows "edge_indexes idx edges =
     Inr (map (\<lambda>(a, b, ws). (int32 (int (the (map_of idx a))), int32 (int (the (map_of idx b))))) edges)"
proof -
  let ?ls = "map int [0..<length edges]"
  have len: "length ?ls = length edges" by simp
  have in1: "\<forall>(l, i) \<in> set (zip ?ls (map fst edges)). i \<in> fst ` set idx"
    using assms(2) by (fastforce dest: set_zip_rightD)
  have in2: "\<forall>(l, i) \<in> set (zip ?ls (map (fst \<circ> snd) edges)). i \<in> fst ` set idx"
    using assms(2) by (fastforce dest: set_zip_rightD)
  have ex: "map_of idx a = Some (the (map_of idx a))" if "a \<in> fst ` set idx" for a
    using that by (metis map_of_eq_None_iff option.collapse)
  have some: "map_of idx a = Some (the (map_of idx a)) \<and> map_of idx b = Some (the (map_of idx b))"
    if "(a, b, ws) \<in> set edges" for a b ws
    using assms(2) that ex by fastforce
  have n1: "node_indexes idx (zip ?ls (map fst edges))
              = map (\<lambda>(l, i). (l, map_of idx i)) (zip ?ls (map fst edges))"
    by (rule node_indexes_distinct [OF assms(1) in1])
  have n2: "node_indexes idx (zip ?ls (map (fst \<circ> snd) edges))
              = map (\<lambda>(l, i). (l, map_of idx i)) (zip ?ls (map (fst \<circ> snd) edges))"
    by (rule node_indexes_distinct [OF assms(1) in2])
  have fsts: "map fst (map (\<lambda>(l, i). (l, f i)) (zip ls xs)) = ls"
    if "length ls = length xs" for f :: "int \<Rightarrow> nat option" and ls :: "int list" and xs :: "int list"
    using that by (induction ls xs rule: list_induct2) auto
  have eq: "map fst (map (\<lambda>(l, i). (l, map_of idx i)) (zip ?ls (map fst edges)))
          = map fst (map (\<lambda>(l, i). (l, map_of idx i)) (zip ?ls (map (fst \<circ> snd) edges)))"
  proof -
    have "map fst (map (\<lambda>(l, i). (l, map_of idx i)) (zip ?ls (map fst edges))) = ?ls"
      by (rule fsts) simp
    moreover have "map fst (map (\<lambda>(l, i). (l, map_of idx i)) (zip ?ls (map (fst \<circ> snd) edges))) = ?ls"
      by (rule fsts) simp
    ultimately show ?thesis by simp
  qed
  have df: "DataFrame2 (node_indexes idx (zip ?ls (map fst edges)))
                       (node_indexes idx (zip ?ls (map (fst \<circ> snd) edges)))
            = Inr (map (\<lambda>(l, (a, b, ws)). (l, Some (map_of idx a), Some (map_of idx b))) (zip ?ls edges))"
    unfolding n1 n2 DataFrame2_def using eq edge_frame [OF len, of "map_of idx"] by simp
  have cells: "map (\<lambda>(l, (a, b, ws)). (l, Some (map_of idx a), Some (map_of idx b))) (zip ?ls edges)
             = map (\<lambda>(l, (a, b, ws)). (l, Some (Some (the (map_of idx a))), Some (Some (the (map_of idx b)))))
                   (zip ?ls edges)"
    using some by (auto dest: set_zip_rightD)
  have "astype_int32 (map (\<lambda>(l, (a, b, ws)). (l, Some (map_of idx a), Some (map_of idx b))) (zip ?ls edges))
        = Inr (map (\<lambda>(l, (a, b, ws)). (int32 (int (the (map_of idx a))), int32 (int (the (map_of idx b)))))
                   (zip ?ls edges))"
    unfolding cells astype_int32_def dropna_present by (simp add: case_prod_unfold)
  moreover have "map (\<lambda>(l, (a, b, ws)). (int32 (int (the (map_of idx a))), int32 (int (the (map_of idx b)))))
                   (zip ls edges)
      = map (\<lambda>(a, b, ws). (int32 (int (the (map_of idx a))), int32 (int (the (map_of idx b))))) edges"
    if "length ls = length edges" for ls :: "int list"
    using that by (induction ls edges rule: list_induct2) auto
  ultimately show ?thesis using df len by (simp add: edge_indexes_def)
qed

lemma int32_small: "0 \<le> i \<Longrightarrow> i < 2147483648 \<Longrightarrow> int32 i = i"
  by (simp add: int32_def)

lemma map_of_zip_upt:
  "map_of (zip ids [0..<length ids]) a = Some k \<Longrightarrow> k < length ids"
  by (auto dest!: map_of_SomeD set_zip_rightD)

lemma create_graph_ok:
  assumes "slots w = Some tbl" "0 \<le> gno" "gno < int (length tbl)"
    and "length ids = length xy" "length es = length ws"
    and "\<forall>r \<in> set ws. length r = k \<and> (\<forall>x \<in> set r. 0 \<le> x)"
    and "\<forall>(a, b) \<in> set es. 0 \<le> a \<and> a < int (length xy) \<and> 0 \<le> b \<and> b < int (length xy)"
  shows "create_graph gno ids xy es ws k twoway w =
          (Inr (), w\<lparr>slots := Some (tbl[nat gno :=
                  Some \<lparr> g_ids = ids, g_xy = xy, g_arcs = build_arcs es ws twoway,
                         g_k = k, g_vars = [], g_cache = None \<rparr>])\<rparr>)"
proof -
  have a: "\<not> (gno < 0 \<or> int (length tbl) \<le> gno)" using assms(2,3) by simp
  have b: "\<not> (length ids \<noteq> length xy \<or> length es \<noteq> length ws
                  \<or> (\<exists>r \<in> set ws. length r \<noteq> k)
                  \<or> (\<exists>(a, b) \<in> set es. a < 0 \<or> int (length xy) \<le> a \<or> b < 0 \<or> int (length xy) \<le> b))"
    using assms(4-7) by fastforce
  have c: "\<not> (\<exists>r \<in> set ws. \<exists>x \<in> set r. x < 0)" using assms(6) by fastforce
  show ?thesis unfolding create_graph_def using assms(1) a b c by simp
qed

lemma build_arcs_weights:
  "(a, v, r) \<in> set (build_arcs es ws twoway) \<Longrightarrow> r \<in> set ws"
  by (auto simp: build_arcs_def split: if_splits dest: set_zip_rightD)

lemma arcs_ok_build:
  "\<forall>r \<in> set ws. length r = k \<and> (\<forall>x \<in> set r. 0 \<le> x) \<Longrightarrow> arcs_ok k (build_arcs es ws twoway)"
  unfolding arcs_ok_def using build_arcs_weights by fast

lemma init_ok:
  assumes c: "consistent w" and wf: "well_formed nodes edges columns"
    and room: "MAX_NUM_NETWORKS w = 0 \<or> NUM_NETWORKS w < MAX_NUM_NETWORKS w"
  shows "\<exists>net w'. Network_init nodes edges columns twoway w = (Inr net, w') \<and> bound net w' \<and>
           graph_no net = NUM_NETWORKS w \<and> node_ids net = map fst nodes"
proof -
  let ?idx = "zip (map fst nodes) [0..<length nodes]"
  let ?n = "length nodes"
  from c have num: "0 \<le> NUM_NETWORKS w" "NUM_NETWORKS w \<le> MAX_NUM_NETWORKS w"
    by (simp_all add: consistent_def)
  obtain w1 where t: "take_slot w = (Inr (NUM_NETWORKS w), w1)"
    and w1: "w1 = (if MAX_NUM_NETWORKS w = 0
                   then w\<lparr>MAX_NUM_NETWORKS := 1, slots := Some [None], NUM_NETWORKS := 1\<rparr>
                   else w\<lparr>NUM_NETWORKS := NUM_NETWORKS w + 1\<rparr>)"
    using room num by (auto simp: take_slot_cases [OF c])
  obtain tbl where tbl: "slots w1 = Some tbl" "NUM_NETWORKS w < int (length tbl)"
    using c room num w1 by (cases "slots w") (auto simp: consistent_def)
  have didx: "distinct (map fst ?idx)" using wf by (simp add: well_formed_def)
  have keys: "fst ` set ?idx = fst ` set nodes"
    by (metis (no_types) length_map length_upt map_fst_zip minus_nat.diff_0 set_map)
  have ends: "\<forall>(a, b, ws) \<in> set edges. a \<in> fst ` set ?idx \<and> b \<in> fst ` set ?idx"
    using wf unfolding keys by (auto simp: well_formed_def)
  note ei = edge_indexes_ok [OF didx ends]
  let ?es = "map (\<lambda>(a, b, ws). (int32 (int (the (map_of ?idx a))), int32 (int (the (map_of ?idx b))))) edges"
  have pos: "the (map_of ?idx a) < ?n" if "a \<in> fst ` set nodes" for a
  proof -
    from that keys obtain k where "map_of ?idx a = Some k"
      by (metis map_of_eq_None_iff not_Some_eq)
    with map_of_zip_upt [of "map fst nodes" a k] show ?thesis by simp
  qed
  have small: "?n < 2147483648" using wf by (simp add: well_formed_def)
  have i32: "int32 (int (the (map_of ?idx a))) = int (the (map_of ?idx a))" if "a \<in> fst ` set nodes" for a
    using pos [OF that] small by (intro int32_small) simp_all
  have valid: "\<forall>(a, b) \<in> set ?es. 0 \<le> a \<and> a < int (length (map snd nodes)) \<and> 0 \<le> b \<and> b < int (length (map snd nodes))"
  proof -
    have "0 \<le> int32 (int (the (map_of ?idx a))) \<and> int32 (int (the (map_of ?idx a))) < int ?n"
      if "a \<in> fst ` set nodes" for a
      using pos [OF that] i32 [OF that] by simp
    with wf show ?thesis by (fastforce simp: well_formed_def)
  qed
  have rows: "\<forall>r \<in> set (map (snd \<circ> snd) edges). length r = length columns \<and> (\<forall>x \<in> set r. 0 \<le> x)"
    using wf by (fastforce simp: well_formed_def)
  let ?g = "\<lparr> g_ids = map (int32 \<circ> fst) nodes, g_xy = map snd nodes,
              g_arcs = build_arcs ?es (map (snd \<circ> snd) edges) twoway,
              g_k = length columns, g_vars = [], g_cache = None \<rparr>"
  let ?w' = "w1\<lparr>slots := Some (tbl[nat (NUM_NETWORKS w) := Some ?g])\<rparr>"
  have cg: "create_graph (NUM_NETWORKS w) (map (int32 \<circ> fst) nodes) (map snd nodes)
              ?es (map (snd \<circ> snd) edges) (length columns) twoway w1 = (Inr (), ?w')"
    by (rule create_graph_ok [OF tbl(1) num(1) tbl(2) _ _ rows valid]) simp_all
  let ?net = "\<lparr> graph_no = NUM_NETWORKS w, nodes_df = nodes, edges_df = edges,
                impedance_names = columns, variable_names = [], node_idx = ?idx \<rparr>"
  have res: "Network_init nodes edges columns twoway w = (Inr ?net, ?w')"
    using t ei cg by (simp add: Network_init_def)
  have "graph_at ?w' (NUM_NETWORKS w) = Some ?g"
    using tbl(2) num(1) by (simp add: graph_at_def)
  moreover have "arcs_ok (length columns) (build_arcs ?es (map (snd \<circ> snd) edges) twoway)"
    by (rule arcs_ok_build [OF rows])
  ultimately have "bound ?net ?w'" using small by (simp add: bound_def)
  with res show ?thesis by (simp add: node_ids_def)
qed

lemma occupied_update:
  "slots w = Some tbl \<Longrightarrow> slots w' = Some (tbl[n := Some g]) \<Longrightarrow> occupied w i \<Longrightarrow> occupied w' i"
  by (cases "nat i = n") (auto simp: occupied_def graph_at_def split: if_splits)

lemma occupied_same_slots: "slots w' = slots w \<Longrightarrow> occupied w i \<Longrightarrow> occupied w' i"
  by (simp add: occupied_def graph_at_def)

lemma occupied_put_graph: "occupied w i \<Longrightarrow> occupied (put_graph w gno g) i"
proof (cases "slots w")
  case None
  then show "occupied w i \<Longrightarrow> ?thesis" by (simp add: occupied_def graph_at_def)
next
  case (Some tbl)
  then have "slots (put_graph w gno g) = Some (tbl[nat gno := Some g])" by (simp add: put_graph_def)
  with Some show "occupied w i \<Longrightarrow> ?thesis" by (rule occupied_update)
qed

lemma occupied_create_graph:
  assumes "occupied w i"
  shows "occupied (snd (create_graph gno ids xy es ws k twoway w)) i"
proof (cases "fst (create_graph gno ids xy es ws k twoway w)")
  case (Inl e)
  then have "snd (create_graph gno ids xy es ws k twoway w) = w"
    by (auto simp: create_graph_def split: option.splits if_splits)
  with assms show ?thesis by simp
next
  case (Inr u)
  then obtain tbl where "slots w = Some tbl"
    and "slots (snd (create_graph gno ids xy es ws k twoway w))
           = Some (tbl[nat gno := Some \<lparr> g_ids = ids, g_xy = xy, g_arcs = build_arcs es ws twoway,
                         g_k = k, g_vars = [], g_cache = None \<rparr>])"
    by (auto simp: create_graph_def split: option.splits if_splits)
  then show ?thesis using assms by (rule occupied_update)
qed

lemma slots_take_slot: "slots w \<noteq> None \<Longrightarrow> slots (snd (take_slot w)) = slots w"
  by (auto simp: take_slot_def reserve_cases)

lemma occupied_take_slot: "occupied w i \<Longrightarrow> occupied (snd (take_slot w)) i"
proof -
  assume a: "occupied w i"
  then have "slots w \<noteq> None" by (cases "slots w") (simp_all add: occupied_def graph_at_def)
  then have "slots (snd (take_slot w)) = slots w" by (rule slots_take_slot)
  then show ?thesis using a by (rule occupied_same_slots)
qed

lemma init_snd:
  "snd (Network_init nodes edges columns twoway w) = snd (take_slot w) \<or>
   (\<exists>gno es. take_slot w = (Inr gno, snd (take_slot w)) \<and>
      snd (Network_init nodes edges columns twoway w)
        = snd (create_graph gno (map (int32 \<circ> fst) nodes) (map snd nodes)
                es (map (snd \<circ> snd) edges) (length columns) twoway (snd (take_slot w))))"
proof -
  obtain r1 w1 where t: "take_slot w = (r1, w1)" by (cases "take_slot w")
  show ?thesis
  proof (cases r1)
    case (Inl e)
    with t show ?thesis by (simp add: Network_init_def)
  next
    case (Inr gno)
    show ?thesis
    proof (cases "edge_indexes (zip (map fst nodes) [0..<length nodes]) edges")
      case (Inl e)
      with Inr t show ?thesis by (simp add: Network_init_def)
    next
      case es: (Inr es)
      let ?c = "create_graph gno (map (int32 \<circ> fst) nodes) (map snd nodes)
                  es (map (snd \<circ> snd) edges) (length columns) twoway w1"
      have "snd (Network_init nodes edges columns twoway w) = snd ?c"
        using Inr t es by (cases ?c) (auto simp: Network_init_def split: sum.splits)
      with Inr t show ?thesis by auto
    qed
  qed
qed

lemma occupied_init:
  "occupied w i \<Longrightarrow> occupied (snd (Network_init nodes edges columns twoway w)) i"
  using init_snd [of nodes edges columns twoway w] occupied_take_slot [of w i]
    occupied_create_graph [of "snd (take_slot w)" i]
  by auto

lemma occupied_set_store:
  "occupied w i \<Longrightarrow> occupied (snd (set_store net name df w)) i"
proof -
  assume a: "occupied w i"
  let ?w1 = "w\<lparr>stdout := stdout w @ [Describe]\<rparr>"
  let ?r = "initialize_acc_var (graph_no net) (index_of name (variable_names net))
             (map (\<lambda>(l, v, i). int32 (int i)) df) (map (\<lambda>(l, v, i). v) df) ?w1"
  have "occupied (snd ?r) i"
    using a occupied_same_slots [of ?w1 w i]
    by (auto simp: initialize_acc_var_def occupied_put_graph split: option.splits)
  then show ?thesis
    by (cases ?r) (auto simp: set_store_def occupied_same_slots split: sum.splits)
qed

lemma occupied_set:
  assumes "occupied w i"
  shows "occupied (snd (snd (Network_set net ids variable name w))) i"
proof (cases "set_frame net ids variable name")
  case (Inl e)
  with assms show ?thesis by (simp add: Network_set_def)
next
  case (Inr df0)
  let ?w1 = "set_report (int (length df0)) (int (length (dropna df0))) w"
  obtain r2 w2 where d: "set_declare net name ?w1 = (r2, w2)" by (cases "set_declare net name ?w1")
  have "occupied ?w1 i" using assms by (simp add: set_report_def occupied_same_slots)
  then have "occupied (snd (set_declare net name ?w1)) i"
    by (auto simp: set_declare_def initialize_acc_vars_def occupied_put_graph split: option.splits)
  with d have w2: "occupied w2 i" by simp
  show ?thesis
  proof (cases r2)
    case (Inl e)
    with Inr d w2 show ?thesis by (simp add: Network_set_def)
  next
    case r2: (Inr u)
    obtain r3 w3 where st: "set_store (set_name net name) name (dropna df0) w2 = (r3, w3)"
      by (cases "set_store (set_name net name) name (dropna df0) w2")
    with occupied_set_store [OF w2, of "set_name net name" name "dropna df0"]
    have "occupied w3 i" by simp
    with Inr d r2 st show ?thesis by (simp add: Network_set_def)
  qed
qed

lemma occupied_exec: "occupied w i \<Longrightarrow> occupied (exec c w) i"
proof (cases c)
  case (Reserve num)
  assume "occupied w i"
  with Reserve show ?thesis
    by (auto simp: reserve_cases occupied_def graph_at_def)
next
  case (New nodes edges columns twoway)
  assume "occupied w i"
  with New show ?thesis by (simp add: occupied_init)
next
  case (SetVar net ids variable name)
  assume "occupied w i"
  with SetVar show ?thesis by (simp add: occupied_set)
next
  case (Precompute r net d)
  assume "occupied w i"
  with Precompute show ?thesis
    by (auto simp: Network_precompute_def precompute_range_def occupied_put_graph split: option.splits)
next
  case (InitPois a b c)
  assume "occupied w i"
  with InitPois show ?thesis
    by (simp add: Network_initialize_pois_def initialize_pois_def occupied_same_slots)
next
  case (InitPoiCategory c x y)
  assume "occupied w i"
  with InitPoiCategory show ?thesis
    by (auto simp: Network_initialize_poi_category_def initialize_category_def Let_def
        occupied_same_slots split: option.splits sum.splits)
qed

lemma occupied_run: "occupied w i \<Longrightarrow> occupied (run cs w) i"
  unfolding run_def by (induction cs arbitrary: w) (simp_all add: occupied_exec)

lemma init_occupied:
  assumes "Network_init nodes edges columns twoway w = (Inr net, w')"
  shows "occupied w' (graph_no net)"
proof -
  obtain r1 w1 where t: "take_slot w = (r1, w1)" by (cases "take_slot w")
  from assms t obtain gno where r1: "r1 = Inr gno" by (cases r1) (auto simp: Network_init_def)
  from assms t r1 obtain es where
    cg: "create_graph gno (map (int32 \<circ> fst) nodes) (map snd nodes)
            es (map (snd \<circ> snd) edges) (length columns) twoway w1 = (Inr (), w')"
    and gno: "graph_no net = gno"
    by (auto simp: Network_init_def Let_def split: sum.splits prod.splits)
  from cg show ?thesis unfolding gno
    by (auto simp: create_graph_def occupied_def graph_at_def split: option.splits if_splits)
qed

lemma NUM_run:
  "consistent w \<Longrightarrow> CAT_NAME_TO_IND w = None \<Longrightarrow> NUM_NETWORKS w \<le> NUM_NETWORKS (run cs w)"
proof (induction cs arbitrary: w)
  case Nil
  then show ?case by (simp add: run_def)
next
  case (Cons c cs)
  from consistent_exec [OF Cons.prems] Cons.IH [of "exec c w"]
  have "NUM_NETWORKS (exec c w) \<le> NUM_NETWORKS (run cs (exec c w))" by simp
  with NUM_exec [OF Cons.prems(1), of c] show ?case by (simp add: run_def)
qed

lemma init_slot:
  assumes "consistent w" "Network_init nodes edges columns twoway w = (Inr net, w')"
  shows "graph_no net = NUM_NETWORKS w \<and> NUM_NETWORKS w' = NUM_NETWORKS w + 1"
proof -
  from init_result [OF assms(2)] obtain w1 where
    t: "take_slot w = (Inr (graph_no net), w1)" and g: "same_globals w1 w'" by blast
  from assms(1) have "0 \<le> NUM_NETWORKS w" "NUM_NETWORKS w \<le> MAX_NUM_NETWORKS w"
    by (simp_all add: consistent_def)
  with t have "graph_no net = NUM_NETWORKS w \<and> NUM_NETWORKS w1 = NUM_NETWORKS w + 1"
    by (auto simp: take_slot_cases [OF assms(1)] split: if_splits)
  with g show ?thesis by (simp add: same_globals_def)
qed

lemma subseq_upt_widen:
  "a \<le> b \<Longrightarrow> subseq xs (map int [b..<f]) \<Longrightarrow> subseq xs (map int [a..<f])"
proof -
  assume a: "a \<le> b" and s: "subseq xs (map int [b..<f])"
  show ?thesis
  proof (cases "b \<le> f")
    case True
    with a have "[a..<f] = [a..<b] @ [b..<f]" by (metis le_Suc_ex upt_add_eq_append)
    with s show ?thesis by (simp add: list_emb_append2)
  next
    case False
    with s have "xs = []" by simp
    then show ?thesis by simp
  qed
qed

lemma constructed_subseq:
  "consistent w \<Longrightarrow> CAT_NAME_TO_IND w = None \<Longrightarrow>
   subseq (map graph_no (constructed cs w))
          (map int [nat (NUM_NETWORKS w)..<nat (NUM_NETWORKS (run cs w))])"
proof (induction cs arbitrary: w)
  case Nil
  then show ?case by simp
next
  case (Cons c cs)
  let ?w1 = "exec c w"
  let ?f = "nat (NUM_NETWORKS (run cs ?w1))"
  note c1 = consistent_exec [OF Cons.prems, of c]
  have run: "run (c # cs) w = run cs ?w1" by (simp add: run_def)
  have ih: "subseq (map graph_no (constructed cs ?w1)) (map int [nat (NUM_NETWORKS ?w1)..<?f])"
    using Cons.IH [of ?w1] c1 by simp
  have mono: "NUM_NETWORKS w \<le> NUM_NETWORKS ?w1" by (rule NUM_exec [OF Cons.prems(1)])
  have mono2: "NUM_NETWORKS ?w1 \<le> NUM_NETWORKS (run cs ?w1)" using NUM_run c1 by simp
  have nn: "0 \<le> NUM_NETWORKS w" using Cons.prems(1) by (simp add: consistent_def)
  have skip: "subseq (map graph_no (constructed cs ?w1)) (map int [nat (NUM_NETWORKS w)..<?f])"
    using subseq_upt_widen [OF _ ih, of "nat (NUM_NETWORKS w)"] mono by simp
  show ?case
  proof (cases "\<exists>nodes edges columns twoway net w'. c = New nodes edges columns twoway \<and>
                  Network_init nodes edges columns twoway w = (Inr net, w')")
    case True
    then obtain nodes edges columns twoway net w' where
      c: "c = New nodes edges columns twoway"
      and r: "Network_init nodes edges columns twoway w = (Inr net, w')" by blast
    from init_slot [OF Cons.prems(1) r] c r
    have g: "graph_no net = NUM_NETWORKS w" and n: "NUM_NETWORKS ?w1 = NUM_NETWORKS w + 1" by simp_all
    from n mono2 nn have lt: "nat (NUM_NETWORKS w) < ?f" by simp
    have "[nat (NUM_NETWORKS w)..<?f] = nat (NUM_NETWORKS w) # [nat (NUM_NETWORKS ?w1)..<?f]"
      using lt n nn by (simp add: upt_conv_Cons nat_add_distrib)
    with ih g nn c r show ?thesis unfolding run by simp
  next
    case False
    then have "constructed (c # cs) w = constructed cs ?w1"
      by (cases c; cases "Network_init (case c of New a b d e \<Rightarrow> a) (case c of New a b d e \<Rightarrow> b)
             (case c of New a b d e \<Rightarrow> d) (case c of New a b d e \<Rightarrow> e) w")
         (auto split: sum.splits)
    with skip show ?thesis unfolding run by simp
  qed
qed

lemma constructed_occupied:
  "net \<in> set (constructed cs w) \<Longrightarrow> occupied (run cs w) (graph_no net)"
proof (induction cs arbitrary: w)
  case Nil
  then show ?case by simp
next
  case (Cons c cs)
  have run: "run (c # cs) w = run cs (exec c w)" by (simp add: run_def)
  show ?case
  proof (cases "net \<in> set (constructed cs (exec c w))")
    case True
    then show ?thesis unfolding run by (rule Cons.IH)
  next
    case False
    with Cons.prems obtain nodes edges columns twoway where
      c: "c = New nodes edges columns twoway"
      and r: "fst (Network_init nodes edges columns twoway w) = Inr net"
      by (cases c) (auto split: sum.splits)
    then have "Network_init nodes edges columns twoway w = (Inr net, exec c w)"
      by (cases "Network_init nodes edges columns twoway w") simp
    then have "occupied (exec c w) (graph_no net)" by (rule init_occupied)
    then show ?thesis unfolding run by (rule occupied_run)
  qed
qed

lemma DataFrame2_error: "DataFrame2 a b = Inl e \<Longrightarrow> e = ValueError"
  by (simp add: DataFrame2_def split: if_splits)

lemma astype_int32_error: "astype_int32 df = Inl e \<Longrightarrow> e = ValueError"
  by (simp add: astype_int32_def split: if_splits)

lemma edge_indexes_error: "edge_indexes idx edges = Inl e \<Longrightarrow> e = ValueError"
proof -
  assume a: "edge_indexes idx edges = Inl e"
  let ?d = "DataFrame2 (node_indexes idx (zip (map int [0..<length edges]) (map fst edges)))
                      (node_indexes idx (zip (map int [0..<length edges]) (map (fst \<circ> snd) edges)))"
  show ?thesis
  proof (cases ?d)
    case (Inl e')
    with a have "e = e'" by (simp add: edge_indexes_def)
    with Inl DataFrame2_error show ?thesis by blast
  next
    case (Inr df)
    with a have "astype_int32 df = Inl e" by (simp add: edge_indexes_def)
    then show ?thesis by (rule astype_int32_error)
  qed
qed

lemma init_not_assertion:
  assumes "take_slot w = (Inr gno, w1)"
  shows "fst (Network_init nodes edges columns twoway w) \<noteq> Inl AssertionError"
proof -
  let ?idx = "zip (map fst nodes) [0..<length nodes]"
  have ei: "edge_indexes ?idx edges \<noteq> Inl AssertionError"
    using edge_indexes_error [of ?idx edges AssertionError] by auto
  have cg: "fst (create_graph gno ids xy es ws k twoway w1) \<noteq> Inl AssertionError" for ids xy es ws k
    by (auto simp: create_graph_def split: option.splits)
  show ?thesis
  proof (cases "edge_indexes ?idx edges")
    case (Inl e)
    with ei assms show ?thesis by (simp add: Network_init_def)
  next
    case (Inr es)
    let ?c = "create_graph gno (map (int32 \<circ> fst) nodes) (map snd nodes)
                  es (map (snd \<circ> snd) edges) (length columns) twoway w1"
    from cg [of "map (int32 \<circ> fst) nodes" "map snd nodes" es "map (snd \<circ> snd) edges" "length columns"]
    show ?thesis using Inr assms by (cases ?c) (auto simp: Network_init_def split: sum.splits)
  qed
qed

lemma full_run:
  assumes "consistent w" "CAT_NAME_TO_IND w = None" "MAX_NUM_NETWORKS w \<noteq> 0"
    "NUM_NETWORKS w = MAX_NUM_NETWORKS w"
  shows "consistent (run cs w) \<and> MAX_NUM_NETWORKS (run cs w) = MAX_NUM_NETWORKS w \<and>
         NUM_NETWORKS (run cs w) = MAX_NUM_NETWORKS w"
proof -
  from consistent_run [OF assms(1,2)] have c: "consistent (run cs w)" by simp
  have m: "MAX_NUM_NETWORKS (run cs w) = MAX_NUM_NETWORKS w" by (rule MAX_run [OF assms(3)])
  from c have "NUM_NETWORKS (run cs w) \<le> MAX_NUM_NETWORKS (run cs w)" by (simp add: consistent_def)
  with NUM_run [OF assms(1,2), of cs] assms(4) m c show ?thesis by simp
qed

text \<open>
  C9. In a state a run of the module can reach, with no capacity reserved, constructing
  a network does not raise the capacity assertion: it reserves capacity for exactly one
  graph, takes the one slot, and a network it returns has slot index 0; with inputs as
  the docstring describes it does return a network. After it, whatever is called, every
  further construction and every call of \<open>reserve_num_graphs\<close> raises.
\<close>

theorem first_network_reserves_one:
  assumes "w = run cs initial" and "MAX_NUM_NETWORKS w = 0"
    and "Network_init nodes edges columns twoway w = (res, w')"
  shows "res \<noteq> Inl AssertionError \<and> MAX_NUM_NETWORKS w' = 1 \<and> NUM_NETWORKS w' = 1 \<and>
         (\<forall>net. res = Inr net \<longrightarrow> graph_no net = 0) \<and>
         (well_formed nodes edges columns \<longrightarrow> (\<exists>net. res = Inr net)) \<and>
         (\<forall>cs' nodes' edges' columns' twoway' num.
            Network_init nodes' edges' columns' twoway' (run cs' w') = (Inl AssertionError, run cs' w') \<and>
            reserve_num_graphs num (run cs' w') = (Inl AssertionError, run cs' w'))"
proof -
  from assms(1) consistent_run [OF conjunct1 [OF consistent_initial] conjunct2 [OF consistent_initial], of cs]
  have c: "consistent w" and cat: "CAT_NAME_TO_IND w = None" by simp_all
  from c assms(2) have num0: "NUM_NETWORKS w = 0" by (simp add: consistent_def)
  let ?w1 = "w\<lparr>MAX_NUM_NETWORKS := 1, slots := Some [None], NUM_NETWORKS := 1\<rparr>"
  have t: "take_slot w = (Inr 0, ?w1)" using assms(2) by (simp add: take_slot_cases [OF c])
  have g: "same_globals ?w1 w'"
    using init_world [of w nodes edges columns twoway] t assms(3) by simp
  then have m: "MAX_NUM_NETWORKS w' = 1" and n: "NUM_NETWORKS w' = 1"
    and cat': "CAT_NAME_TO_IND w' = None"
    using cat by (simp_all add: same_globals_def)
  have c': "consistent w'"
    using consistent_init [OF c, of nodes edges columns twoway] assms(3) by simp
  have a: "res \<noteq> Inl AssertionError"
    using init_not_assertion [OF t, of nodes edges columns twoway] assms(3) by simp
  have slot: "\<forall>net. res = Inr net \<longrightarrow> graph_no net = 0"
    using init_slot [OF c] assms(3) num0 by auto
  have ok: "well_formed nodes edges columns \<longrightarrow> (\<exists>net. res = Inr net)"
    using init_ok [OF c _ disjI1 [OF assms(2)], of nodes edges columns twoway] assms(3) by auto
  have later: "Network_init nodes' edges' columns' twoway' (run cs' w') = (Inl AssertionError, run cs' w') \<and>
            reserve_num_graphs num (run cs' w') = (Inl AssertionError, run cs' w')"
    for cs' nodes' edges' columns' twoway' num
  proof -
    from full_run [OF c' cat', of cs'] m n
    have f: "consistent (run cs' w')" "MAX_NUM_NETWORKS (run cs' w') = 1" "NUM_NETWORKS (run cs' w') = 1"
      by simp_all
    then have "Network_init nodes' edges' columns' twoway' (run cs' w') = (Inl AssertionError, run cs' w')"
      by (intro init_gate_closed) simp_all
    moreover from f have "reserve_num_graphs num (run cs' w') = (Inl AssertionError, run cs' w')"
      by (simp add: reserve_cases)
    ultimately show ?thesis by simp
  qed
  from a m n slot ok later show ?thesis by blast
qed

theorem first_network_reserves_one_witness:
  "MAX_NUM_NETWORKS (run [] initial) = 0 \<and> well_formed nodes0 edges0 [''dist''] \<and>
   map_sum id graph_no (fst (Network_init nodes0 edges0 [''dist''] True (run [] initial))) = Inr 0 \<and>
   MAX_NUM_NETWORKS (snd (Network_init nodes0 edges0 [''dist''] True (run [] initial))) = 1 \<and>
   NUM_NETWORKS (snd (Network_init nodes0 edges0 [''dist''] True (run [] initial))) = 1 \<and>
   fst (Network_init nodes0 edges0 [''dist''] True
          (run [] (snd (Network_init nodes0 edges0 [''dist''] True (run [] initial)))))
     = Inl AssertionError \<and>
   fst (reserve_num_graphs 4
          (run [] (snd (Network_init nodes0 edges0 [''dist''] True (run [] initial)))))
     = Inl AssertionError"
proof -
  have m: "MAX_NUM_NETWORKS (run [] initial) = 0" by (simp add: run_def initial_def)
  have wf: "well_formed nodes0 edges0 [''dist'']"
    by (simp add: well_formed_def nodes0_def edges0_def)
  from first_network_reserves_one [OF refl m prod.collapse [symmetric],
      of nodes0 edges0 "[''dist'']" True] wf m
  show ?thesis by fastforce
qed

text \<open>
  C6, as stated, fails: the slot is taken and the counter incremented before the edges
  are mapped and the engine is called, so a construction that raises afterwards keeps
  its slot. With capacity 2, a construction whose edge names an unknown node raises
  \<open>ValueError\<close> holding slot 0, and the network constructed next has slot index 1: the
  indexes of the constructed networks are not \<open>0, 1, 2, ...\<close>.
\<close>

theorem network_slots_counterexample:
  "fst (Network_init nodes0 edges_bad [''dist''] True (run [Reserve 2] initial)) = Inl ValueError \<and>
   map graph_no (constructed [Reserve 2, New nodes0 edges_bad [''dist''] True,
                               New nodes0 edges0 [''dist''] True] initial) = [1] \<and>
   map graph_no (constructed [Reserve 2, New nodes0 edges_bad [''dist''] True,
                               New nodes0 edges0 [''dist''] True] initial)
     \<noteq> map int [0..<length (constructed [Reserve 2, New nodes0 edges_bad [''dist''] True,
                                         New nodes0 edges0 [''dist''] True] initial)]"
  by code_simp

text \<open>
  C6, amended. Along every run of the module from its initial state: the slot indexes of
  the networks constructed, in the order of construction, are taken in increasing order
  from \<open>0, 1, 2, ...\<close> below the number of slots handed out, so they are distinct; each
  lies within the capacity, and its slot still holds a graph at the end of the run; if
  every slot handed out went to a network that was constructed, the indexes are exactly
  \<open>0, 1, 2, ...\<close>. Once as many slots are handed out as were reserved, every
  construction raises and changes nothing.
\<close>

theorem network_slots:
  assumes "w = run cs initial" and "nets = constructed cs initial"
  shows "subseq (map graph_no nets) (map int [0..<nat (NUM_NETWORKS w)]) \<and>
         distinct (map graph_no nets) \<and>
         (\<forall>net \<in> set nets. 0 \<le> graph_no net \<and> graph_no net < MAX_NUM_NETWORKS w \<and>
                            occupied w (graph_no net)) \<and>
         (length nets = nat (NUM_NETWORKS w) \<longrightarrow> map graph_no nets = map int [0..<length nets]) \<and>
         (MAX_NUM_NETWORKS w \<noteq> 0 \<and> NUM_NETWORKS w = MAX_NUM_NETWORKS w \<longrightarrow>
            (\<forall>nodes edges columns twoway.
               Network_init nodes edges columns twoway w = (Inl AssertionError, w)))"
proof -
  note ci = conjunct1 [OF consistent_initial] and ni = conjunct2 [OF consistent_initial]
  from assms(1) consistent_run [OF ci ni, of cs] have c: "consistent w" by simp
  have sub: "subseq (map graph_no nets) (map int [0..<nat (NUM_NETWORKS w)])"
    using constructed_subseq [OF ci ni, of cs] assms by (simp add: initial_def)
  have "distinct (map int [0..<nat (NUM_NETWORKS w)])" by (simp add: distinct_map)
  then have d: "distinct (map graph_no nets)"
    by (rule subseqs_distinctD [OF iffD2 [OF in_set_subseqs sub]])
  have occ: "\<forall>net \<in> set nets. 0 \<le> graph_no net \<and> graph_no net < MAX_NUM_NETWORKS w \<and>
                            occupied w (graph_no net)"
  proof
    fix net assume net: "net \<in> set nets"
    then have "graph_no net \<in> set (map graph_no nets)" by simp
    with sub obtain y where "y \<in> set (map int [0..<nat (NUM_NETWORKS w)])" "graph_no net = y"
      by (rule list_emb_set)
    then have "graph_no net \<in> set (map int [0..<nat (NUM_NETWORKS w)])" by simp
    then have "0 \<le> graph_no net \<and> graph_no net < NUM_NETWORKS w" by auto
    moreover from c have "NUM_NETWORKS w \<le> MAX_NUM_NETWORKS w" by (simp add: consistent_def)
    moreover have "occupied w (graph_no net)"
      using constructed_occupied [of net cs initial] net assms by simp
    ultimately show "0 \<le> graph_no net \<and> graph_no net < MAX_NUM_NETWORKS w \<and> occupied w (graph_no net)"
      by simp
  qed
  have eq: "length nets = nat (NUM_NETWORKS w) \<longrightarrow> map graph_no nets = map int [0..<length nets]"
    using subseq_same_length [OF sub] by auto
  have gate: "MAX_NUM_NETWORKS w \<noteq> 0 \<and> NUM_NETWORKS w = MAX_NUM_NETWORKS w \<longrightarrow>
            (\<forall>nodes edges columns twoway.
               Network_init nodes edges columns twoway w = (Inl AssertionError, w))"
    using init_gate_closed [OF c] by simp
  from sub d occ eq gate show ?thesis by blast
qed

theorem network_slots_witness:
  "map graph_no (constructed [Reserve 2, New nodes0 edges0 [''dist''] True,
                               New nodes0 edges0 [''dist''] False] initial) = [0, 1] \<and>
   MAX_NUM_NETWORKS (run [Reserve 2, New nodes0 edges0 [''dist''] True,
                          New nodes0 edges0 [''dist''] False] initial) = 2 \<and>
   NUM_NETWORKS (run [Reserve 2, New nodes0 edges0 [''dist''] True,
                          New nodes0 edges0 [''dist''] False] initial) = 2 \<and>
   fst (Network_init nodes0 edges0 [''dist''] True
          (run [Reserve 2, New nodes0 edges0 [''dist''] True,
                New nodes0 edges0 [''dist''] False] initial)) = Inl AssertionError"
proof -
  let ?cs = "[Reserve 2, New nodes0 edges0 [''dist''] True, New nodes0 edges0 [''dist''] False]"
  have n: "NUM_NETWORKS (run ?cs initial) = 2" by code_simp
  have m: "MAX_NUM_NETWORKS (run ?cs initial) = 2" by code_simp
  have l: "length (constructed ?cs initial) = 2" by code_simp
  from network_slots [OF refl refl, of ?cs] n m l
  show ?thesis by (simp add: numeral_2_eq_2)
qed

section \<open>The facility methods\<close>

lemma poi_cats_exec:
  assumes "CAT_NAME_TO_IND w = None"
  shows "poi_cats (exec c w) = poi_cats w"
proof (cases c)
  case (Reserve num)
  then show ?thesis by (simp add: reserve_cases)
next
  case (New nodes edges columns twoway)
  have "poi_cats (snd (take_slot w)) = poi_cats w" by (auto simp: take_slot_def reserve_cases)
  with New init_world [of w nodes edges columns twoway] show ?thesis
    by (simp add: same_globals_def)
next
  case (SetVar net ids variable name)
  with same_globals_set [of w net ids variable name] show ?thesis by (simp add: same_globals_def)
next
  case (Precompute r net d)
  with same_globals_precompute [of w r net d] show ?thesis by (simp add: same_globals_def)
next
  case (InitPois a b c)
  with same_globals_initialize_pois [of w a b c] show ?thesis by (simp add: same_globals_def)
next
  case (InitPoiCategory c x y)
  with assms show ?thesis by (simp add: poi_category_globals)
qed

lemma poi_cats_run:
  "consistent w \<Longrightarrow> CAT_NAME_TO_IND w = None \<Longrightarrow> poi_cats (run cs w) = poi_cats w"
proof (induction cs arbitrary: w)
  case Nil
  then show ?case by (simp add: run_def)
next
  case (Cons c cs)
  from consistent_exec [OF Cons.prems, of c] Cons.IH [of "exec c w"]
  have "poi_cats (run cs (exec c w)) = poi_cats (exec c w)" by simp
  with poi_cats_exec [OF Cons.prems(2), of c] show ?case by (simp add: run_def)
qed

text \<open>
  C8. In every state a run of the module can reach, \<open>initialize_poi_category\<close> raises
  \<open>NameError\<close> and changes nothing, and \<open>compute_nearest_pois\<close> raises \<open>NameError\<close>,
  whatever their arguments: the name \<open>CAT_NAME_TO_IND\<close> stays unbound, and no category
  is ever registered with the engine.
\<close>

theorem poi_methods_raise_NameError:
  "Network_initialize_poi_category category xcol ycol (run cs initial)
     = (Inl NameError, run cs initial) \<and>
   Network_compute_nearest_pois knn distance category (run cs initial) = Inl NameError \<and>
   CAT_NAME_TO_IND (run cs initial) = None \<and> poi_cats (run cs initial) = []"
proof -
  note ci = conjunct1 [OF consistent_initial] and ni = conjunct2 [OF consistent_initial]
  from consistent_run [OF ci ni, of cs] have n: "CAT_NAME_TO_IND (run cs initial) = None" by simp
  have "poi_cats (run cs initial) = []" using poi_cats_run [OF ci ni, of cs] by (simp add: initial_def)
  with n show ?thesis
    by (simp add: poi_category_globals Network_compute_nearest_pois_def)
qed

theorem poi_methods_raise_NameError_witness:
  "Network_initialize_poi_category ''shops'' [(0, 1)] [(0, 2)] (run [InitPois 3 500 10] initial)
     = (Inl NameError, run [InitPois 3 500 10] initial) \<and>
   Network_compute_nearest_pois (\<lambda>w d c. []) 500 ''shops'' (run [InitPois 3 500 10] initial)
     = Inl NameError"
  using poi_methods_raise_NameError [of "''shops''" "[(0, 1)]" "[(0, 2)]" "[InitPois 3 500 10]"
      "\<lambda>w d c. []" 500]
  by simp

text \<open>
  C7. In any state, also one in which the name \<open>CAT_NAME_TO_IND\<close> is bound,
  \<open>compute_nearest_pois\<close> raises if the category is not configured (the name is unbound
  or the category is not a key of the dictionary) or if the distance is \<open>\<le> 0\<close>: no
  nearest-facility query is answered for an unconfigured category.
\<close>

theorem compute_nearest_pois_fails:
  assumes "(case CAT_NAME_TO_IND w of None \<Rightarrow> True | Some d \<Rightarrow> map_of d category = None)
           \<or> distance \<le> 0"
  shows "\<exists>e. Network_compute_nearest_pois knn distance category w = Inl e"
proof (cases "CAT_NAME_TO_IND w")
  case None
  then show ?thesis by (simp add: Network_compute_nearest_pois_def)
next
  case (Some d)
  show ?thesis
  proof (cases "map_of d category")
    case None
    with Some show ?thesis by (simp add: Network_compute_nearest_pois_def)
  next
    case (Some c)
    with \<open>CAT_NAME_TO_IND w = Some d\<close> assms have "distance \<le> 0" by simp
    with Some \<open>CAT_NAME_TO_IND w = Some d\<close> show ?thesis
      by (simp add: Network_compute_nearest_pois_def find_all_nearest_pois_def)
  qed
qed

theorem compute_nearest_pois_fails_witness:
  "CAT_NAME_TO_IND world0 = Some [(''shops'', 0)] \<and> map_of [(''shops'', 0::nat)] ''parks'' = None \<and>
   Network_compute_nearest_pois (\<lambda>w d c. []) 500 ''parks'' world0 = Inl AssertionError \<and>
   (0::real) \<le> 0 \<and>
   Network_compute_nearest_pois (\<lambda>w d c. []) 0 ''shops'' world0 = Inl InvalidArgument \<and>
   Network_compute_nearest_pois (\<lambda>w d c. []) 500 ''shops'' world0 = Inr []"
proof -
  have c: "CAT_NAME_TO_IND world0 = Some [(''shops'', 0)]" by (simp add: world0_def)
  have "\<exists>e. Network_compute_nearest_pois (\<lambda>w d c. []) 500 ''parks'' world0 = Inl e"
    by (rule compute_nearest_pois_fails) (simp add: c)
  moreover have "\<exists>e. Network_compute_nearest_pois (\<lambda>w d c. []) 0 ''shops'' world0 = Inl e"
    by (rule compute_nearest_pois_fails) simp
  ultimately show ?thesis
    by (simp add: c Network_compute_nearest_pois_def find_all_nearest_pois_def world0_def)
qed

section \<open>Setting variables and aggregating\<close>

lemma set_network:
  "fst (snd (Network_set net ids variable name w)) = net \<or>
   fst (snd (Network_set net ids variable name w)) = set_name net name"
proof (cases "set_frame net ids variable name")
  case (Inl e)
  then show ?thesis by (simp add: Network_set_def)
next
  case (Inr df0)
  let ?w1 = "set_report (int (length df0)) (int (length (dropna df0))) w"
  obtain r2 w2 where d: "set_declare net name ?w1 = (r2, w2)" by (cases "set_declare net name ?w1")
  show ?thesis
  proof (cases r2)
    case (Inl e)
    with Inr d show ?thesis by (simp add: Network_set_def)
  next
    case r2: (Inr u)
    obtain r3 w3 where st: "set_store (set_name net name) name (dropna df0) w2 = (r3, w3)"
      by (cases "set_store (set_name net name) name (dropna df0) w2")
    with Inr d r2 show ?thesis by (simp add: Network_set_def)
  qed
qed

lemma set_name_fields:
  "graph_no (set_name net name) = graph_no net \<and> node_idx (set_name net name) = node_idx net \<and>
   impedance_names (set_name net name) = impedance_names net \<and>
   set (variable_names (set_name net name)) = insert name (set (variable_names net))"
  by (auto simp: set_name_def)

lemma set_fields:
  "graph_no (fst (snd (Network_set net ids variable name w))) = graph_no net \<and>
   node_idx (fst (snd (Network_set net ids variable name w))) = node_idx net \<and>
   impedance_names (fst (snd (Network_set net ids variable name w))) = impedance_names net \<and>
   set (variable_names (fst (snd (Network_set net ids variable name w))))
     \<subseteq> insert name (set (variable_names net))"
proof -
  from set_network [of net ids variable name w]
  consider (same) "fst (snd (Network_set net ids variable name w)) = net"
    | (named) "fst (snd (Network_set net ids variable name w)) = set_name net name"
    by blast
  then show ?thesis
  proof cases
    case same
    then show ?thesis by (simp add: subset_insertI)
  next
    case named
    then show ?thesis by (simp add: set_name_fields)
  qed
qed

lemma set_all_fields:
  "graph_no (fst (set_all net cs w)) = graph_no net \<and>
   node_idx (fst (set_all net cs w)) = node_idx net \<and>
   impedance_names (fst (set_all net cs w)) = impedance_names net \<and>
   set (variable_names (fst (set_all net cs w)))
     \<subseteq> set (variable_names net) \<union> set (map (\<lambda>(ids, variable, name). name) cs)"
proof (induction cs arbitrary: net w)
  case Nil
  then show ?case by simp
next
  case (Cons c cs)
  obtain ids variable name where c: "c = (ids, variable, name)" by (cases c)
  let ?net1 = "fst (snd (Network_set net ids variable name w))"
  let ?w1 = "snd (snd (Network_set net ids variable name w))"
  have step: "set_all net (c # cs) w = set_all ?net1 cs ?w1" by (simp add: c)
  note ih = Cons.IH [of ?net1 ?w1] and f = set_fields [of net ids variable name w]
  have g: "graph_no (fst (set_all ?net1 cs ?w1)) = graph_no net" using ih f by simp
  have n: "node_idx (fst (set_all ?net1 cs ?w1)) = node_idx net" using ih f by simp
  have i: "impedance_names (fst (set_all ?net1 cs ?w1)) = impedance_names net" using ih f by simp
  have "set (variable_names (fst (set_all ?net1 cs ?w1)))
          \<subseteq> set (variable_names ?net1) \<union> set (map (\<lambda>(ids, variable, name). name) cs)"
    using ih by simp
  moreover have "set (variable_names ?net1) \<subseteq> insert name (set (variable_names net))"
    using f by simp
  ultimately have v: "set (variable_names (fst (set_all ?net1 cs ?w1)))
          \<subseteq> set (variable_names net) \<union> set (map (\<lambda>(ids, variable, name). name) (c # cs))"
    unfolding c by auto
  from g n i v show ?case unfolding step by simp
qed

lemma AGGREGATIONS_keys:
  "(map_of AGGREGATIONS k = None) = (k \<notin> {''SUM'', ''AVE'', ''STD'', ''COUNT''})"
  by (simp add: AGGREGATIONS_def)

lemma DECAYS_keys: "(map_of DECAYS k = None) = (k \<notin> {''EXP'', ''LINEAR'', ''FLAT''})"
  by (simp add: DECAYS_def)

lemma aggregate_rejects:
  assumes "upper type \<notin> {''SUM'', ''AVE'', ''STD'', ''COUNT''} \<or>
           upper decay \<notin> {''EXP'', ''LINEAR'', ''FLAT''} \<or>
           name \<notin> set (variable_names net) \<or> nm \<notin> set (impedance_names net)"
  shows "Network_aggregate r net distance type decay (Some nm) name w \<in> {Inl KeyError, Inl AssertionError}"
proof (cases "map_of AGGREGATIONS (upper type)")
  case None
  then show ?thesis by (simp add: Network_aggregate_def)
next
  case agg: (Some agg)
  show ?thesis
  proof (cases "map_of DECAYS (upper decay)")
    case None
    with agg show ?thesis by (simp add: Network_aggregate_def)
  next
    case (Some dec)
    from agg have "upper type \<in> {''SUM'', ''AVE'', ''STD'', ''COUNT''}"
      using AGGREGATIONS_keys [of "upper type"] by auto
    moreover from Some have "upper decay \<in> {''EXP'', ''LINEAR'', ''FLAT''}"
      using DECAYS_keys [of "upper decay"] by auto
    ultimately have "name \<notin> set (variable_names net) \<or> nm \<notin> set (impedance_names net)"
      using assms by blast
    with agg Some show ?thesis by (auto simp: Network_aggregate_def)
  qed
qed

lemma aggregate_accepts:
  assumes "map_of AGGREGATIONS (upper type) = Some agg" "map_of DECAYS (upper decay) = Some dec"
    "name \<in> set (variable_names net)" "nm \<in> set (impedance_names net)"
  shows "Network_aggregate r net distance type decay (Some nm) name w =
     (case get_all_aggregate_accessibility_variables r distance
              (index_of name (variable_names net)) agg dec (graph_no net)
              (index_of nm (impedance_names net)) w of
        Inl e \<Rightarrow> Inl e
      | Inr res \<Rightarrow> Series res (node_ids net))"
  using assms by (simp add: Network_aggregate_def)



lemma node_indexes_map:
  "distinct (map fst idx) \<Longrightarrow> node_indexes idx col = map (\<lambda>(l, i). (l, map_of idx i)) col"
proof (induction col)
  case Nil
  then show ?case by (simp add: node_indexes_def)
next
  case (Cons p col)
  obtain l i where p: "p = (l, i)" by (cases p)
  have "node_indexes idx (p # col) = (l, map_of idx i) # node_indexes idx col"
    using p by (cases "map_of idx i") (simp_all add: node_indexes_def filter_key_distinct [OF Cons.prems])
  with Cons p show ?case by simp
qed

lemma node_indexes_values:
  "(l, Some k) \<in> set (node_indexes idx col) \<Longrightarrow> k \<in> snd ` set idx"
proof -
  assume "(l, Some k) \<in> set (node_indexes idx col)"
  then obtain l' i where "(l', i) \<in> set col"
    and m: "(l, Some k) \<in> set (case map snd (filter (\<lambda>(j, _). j = i) idx) of
          [] \<Rightarrow> [(l', None)] | ks \<Rightarrow> map (\<lambda>k. (l', Some k)) ks)"
    by (auto simp: node_indexes_def)
  from m have "k \<in> set (map snd (filter (\<lambda>(j, _). j = i) idx))"
    by (cases "map snd (filter (\<lambda>(j, _). j = i) idx)") auto
  then show ?thesis by auto
qed

lemma DataFrame2_right:
  "DataFrame2 a b = Inr df \<Longrightarrow> (l, x, Some y) \<in> set df \<Longrightarrow> \<exists>l'. (l', y) \<in> set b"
proof -
  assume d: "DataFrame2 a b = Inr df" and m: "(l, x, Some y) \<in> set df"
  show ?thesis
  proof (cases "map fst a = map fst b")
    case True
    with d have "df = map (\<lambda>((l, x), (_, y)). (l, Some x, Some y)) (zip a b)"
      by (simp add: DataFrame2_def)
    with m obtain p q where "(p, q) \<in> set (zip a b)" "snd q = y" by auto
    then show ?thesis by (metis prod.collapse set_zip_rightD)
  next
    case False
    with d have "df = map (\<lambda>l. (l, map_of a l, map_of b l)) (sort (remdups (map fst a @ map fst b)))"
      by (simp add: DataFrame2_def split: if_splits)
    with m obtain l' where "map_of b l' = Some y" by auto
    then show ?thesis by (blast dest: map_of_SomeD)
  qed
qed

lemma dropna_mem:
  "(l, v, k) \<in> set (dropna rows) \<Longrightarrow> (l, Some (Some v), Some (Some k)) \<in> set rows"
  by (auto simp: dropna_def split: option.splits)

lemma set_frame_indexes:
  assumes "set_frame net ids variable name = Inr df0" "(l, v, k) \<in> set (dropna df0)"
  shows "k \<in> snd ` set (node_idx net)"
proof -
  let ?idxs = "node_indexes (node_idx net) ids"
  from dropna_mem [OF assms(2)] have m: "(l, Some (Some v), Some (Some k)) \<in> set df0" .
  have "\<exists>l'. (l', Some k) \<in> set ?idxs"
  proof (cases "name = ''node_idx''")
    case True
    with assms(1) have "df0 = map (\<lambda>(l, i). (l, Some (map_option real i), Some i)) ?idxs"
      by (simp add: set_frame_def)
    with m show ?thesis by auto
  next
    case False
    with assms(1) obtain var where "DataFrame2 var ?idxs = Inr df0"
      by (simp add: set_frame_def Let_def)
    from DataFrame2_right [OF this m] show ?thesis .
  qed
  then show ?thesis using node_indexes_values by blast
qed

lemma dropna_length: "length (dropna rows) \<le> length rows"
proof (induction rows)
  case Nil
  then show ?case by (simp add: dropna_def)
next
  case (Cons r rows)
  obtain l x y where r: "r = (l, x, y)" by (cases r)
  have "length (dropna (r # rows)) \<le> 1 + length (dropna rows)"
    unfolding r by (cases x; cases y) (auto simp: dropna_def split: option.splits)
  with Cons show ?case by simp
qed

lemma set_report_quiet: "set_report (int (length df0)) (int (length (dropna df0))) w = w\<lparr>stdout := stdout w @ [Up]\<rparr>"
  using dropna_length [of df0] by (simp add: set_report_def)

lemma graph_at_put_same:
  "graph_at w gno = Some g0 \<Longrightarrow> graph_at (put_graph w gno g) gno = Some g"
  by (cases "slots w") (auto simp: graph_at_def put_graph_def split: if_splits)

lemma graph_at_stdout [simp]: "graph_at (w\<lparr>stdout := out\<rparr>) i = graph_at w i"
  by (simp add: graph_at_def)

lemma stdout_put_graph [simp]: "stdout (put_graph w gno g) = stdout w"
  by (simp add: put_graph_def)

lemma put_graph_stdout: "put_graph (w\<lparr>stdout := out\<rparr>) gno g = (put_graph w gno g)\<lparr>stdout := out\<rparr>"
  by (simp add: put_graph_def)

lemma index_of_less: "x \<in> set xs \<Longrightarrow> index_of x xs < length xs"
  unfolding index_of_def by (induction xs) auto

lemma set_declare_bound:
  assumes g: "graph_at w (graph_no net) = Some g" and len: "length (g_vars g) = length (variable_names net)"
  shows "set_declare net name w =
           (Inr (), if name \<in> set (variable_names net) then w
                    else put_graph w (graph_no net) (g\<lparr>g_vars := g_vars g @ [[]]\<rparr>))"
proof (cases "name \<in> set (variable_names net)")
  case True
  then show ?thesis by (simp add: set_declare_def)
next
  case False
  have "take (Suc (length (variable_names net))) (g_vars g @ replicate (Suc (length (variable_names net))) [])
          = g_vars g @ [[]]"
    using len by simp
  with False g show ?thesis
    by (simp add: set_declare_def set_name_def initialize_acc_vars_def)
qed

lemma set_store_bound:
  assumes g: "graph_at w (graph_no net1) = Some g"
    and ix: "index_of name (variable_names net1) < length (g_vars g)"
    and valid: "\<forall>(l, v, k) \<in> set df. k < length (g_xy g) \<and> k < 2147483648"
  shows "set_store net1 name df w =
           (Inr (), (put_graph w (graph_no net1)
                      (g\<lparr>g_vars := (g_vars g)[index_of name (variable_names net1) :=
                                       map (\<lambda>(l, v, k). (k, v)) df]\<rparr>))
                    \<lparr>stdout := stdout w @ [Describe, Elapsed]\<rparr>)"
proof -
  let ?idxs = "map (\<lambda>(l, v, i). int32 (int i)) df"
  let ?vals = "map (\<lambda>(l, v, i). v) df"
  let ?w1 = "w\<lparr>stdout := stdout w @ [Describe]\<rparr>"
  have i32: "int32 (int k) = int k" if "(l, v, k) \<in> set df" for l v k
    using valid that by (intro int32_small) auto
  have idxs: "?idxs = map (\<lambda>(l, v, i). int i) df" using i32 by auto
  have ok: "\<not> (length ?idxs \<noteq> length ?vals \<or> (\<exists>i \<in> set ?idxs. i < 0 \<or> int (length (g_xy g)) \<le> i))"
    unfolding idxs using valid by fastforce
  have z: "zip (map nat ?idxs) ?vals = map (\<lambda>(l, v, k). (k, v)) df"
    unfolding idxs by (induction df) auto
  have "initialize_acc_var (graph_no net1) (index_of name (variable_names net1)) ?idxs ?vals ?w1
          = (Inr (), put_graph ?w1 (graph_no net1)
                      (g\<lparr>g_vars := (g_vars g)[index_of name (variable_names net1) :=
                                       map (\<lambda>(l, v, k). (k, v)) df]\<rparr>))"
    unfolding initialize_acc_var_def using g ix ok z by simp
  then show ?thesis by (simp add: set_store_def put_graph_stdout)
qed

lemma set_succeeds:
  assumes b: "bound net w" and f: "set_frame net ids variable name = Inr df0"
  shows "\<exists>w' g. Network_set net ids variable name w = (Inr (), set_name net name, w') \<and>
           bound (set_name net name) w' \<and> stdout w' = stdout w @ [Up, Describe, Elapsed] \<and>
           graph_at w' (graph_no net) = Some g \<and>
           g_vars g ! index_of name (variable_names (set_name net name))
             = map (\<lambda>(l, v, k). (k, v)) (dropna df0)"
proof -
  let ?net1 = "set_name net name"
  let ?gno = "graph_no net"
  let ?df = "dropna df0"
  let ?ix = "index_of name (variable_names ?net1)"
  from b obtain g where g: "graph_at w ?gno = Some g"
    and n: "length (g_xy g) = length (node_idx net)"
    and vars: "length (g_vars g) = length (variable_names net)"
    and k: "g_k g = length (impedance_names net)"
    and idx: "map snd (node_idx net) = [0..<length (node_idx net)]"
    and small: "length (node_idx net) < 2147483648"
    and arcs: "arcs_ok (g_k g) (g_arcs g)"
    by (auto simp: bound_def split: option.splits)
  let ?w1 = "w\<lparr>stdout := stdout w @ [Up]\<rparr>"
  have rep: "set_report (int (length df0)) (int (length ?df)) w = ?w1" by (rule set_report_quiet)
  have g1: "graph_at ?w1 ?gno = Some g" using g by simp
  let ?g2 = "if name \<in> set (variable_names net) then g else g\<lparr>g_vars := g_vars g @ [[]]\<rparr>"
  let ?w2 = "if name \<in> set (variable_names net) then ?w1
             else put_graph ?w1 ?gno (g\<lparr>g_vars := g_vars g @ [[]]\<rparr>)"
  have dec: "set_declare net name ?w1 = (Inr (), ?w2)" by (rule set_declare_bound [OF g1 vars])
  have g2: "graph_at ?w2 (graph_no ?net1) = Some ?g2"
    using g1 graph_at_put_same [OF g1] by (simp add: set_name_fields)
  have out2: "stdout ?w2 = stdout w @ [Up]" by simp
  have len2: "length (g_vars ?g2) = length (variable_names ?net1)"
    using vars by (simp add: set_name_def)
  have "name \<in> set (variable_names ?net1)" by (simp add: set_name_fields)
  then have ix: "?ix < length (g_vars ?g2)" unfolding len2 by (rule index_of_less)
  have xy2: "length (g_xy ?g2) = length (node_idx net)" using n by simp
  have valid: "\<forall>(l, v, k) \<in> set ?df. k < length (g_xy ?g2) \<and> k < 2147483648"
  proof -
    have "k < length (node_idx net)" if "(l, v, k) \<in> set ?df" for l v k
    proof -
      from set_frame_indexes [OF f that] have "k \<in> set (map snd (node_idx net))" by simp
      then show ?thesis unfolding idx by simp
    qed
    with small xy2 show ?thesis by fastforce
  qed
  let ?g3 = "?g2\<lparr>g_vars := (g_vars ?g2)[?ix := map (\<lambda>(l, v, k). (k, v)) ?df]\<rparr>"
  let ?w3 = "(put_graph ?w2 (graph_no ?net1) ?g3)\<lparr>stdout := stdout ?w2 @ [Describe, Elapsed]\<rparr>"
  have st: "set_store ?net1 name ?df ?w2 = (Inr (), ?w3)"
    by (rule set_store_bound [OF g2 ix valid])
  have res: "Network_set net ids variable name w = (Inr (), ?net1, ?w3)"
    unfolding Network_set_def using f rep dec st by simp
  have g3: "graph_at ?w3 ?gno = Some ?g3"
    using graph_at_put_same [OF g2] by (simp add: set_name_fields)
  have var: "g_vars ?g3 ! ?ix = map (\<lambda>(l, v, k). (k, v)) ?df" using ix by simp
  have "bound ?net1 ?w3"
    unfolding bound_def using g3 n vars k idx small arcs len2
    by (simp add: set_name_fields)
  moreover have "stdout ?w3 = stdout w @ [Up, Describe, Elapsed]" using out2 by simp
  ultimately show ?thesis using res g3 var by blast
qed










lemma example_init: "Network_init nodes0 edges0 [''dist''] True initial = (Inr example_net, example_world)"
  by code_simp

lemma example_bound: "bound example_net example_world"
  by (simp add: bound_def example_net_def example_world_def example_graph_def graph_at_def arcs_ok_def)

lemma example_frame:
  "set_frame example_net [(0, 10), (1, 30), (2, 77)] (Some [(0, Some 5), (1, None), (2, Some 3)]) ''pop''
   = Inr [(0, Some (Some 5), Some (Some 0)), (1, Some None, Some (Some 2)), (2, Some (Some 3), Some None)]"
  by code_simp

lemma example_sets: "set_all example_net example_calls example_world = (example_net_set, example_world_set)"
  by (simp add: example_net_set_def example_world_set_def)

lemma example_set:
  "example_net_set = set_name example_net ''pop'' \<and> bound example_net_set example_world_set \<and> stdout example_world_set = [Up, Describe, Elapsed]"
proof -
  from set_succeeds [OF example_bound example_frame] obtain w' where
    r: "Network_set example_net [(0, 10), (1, 30), (2, 77)] (Some [(0, Some 5), (1, None), (2, Some 3)]) ''pop'' example_world
          = (Inr (), set_name example_net ''pop'', w')"
    and b: "bound (set_name example_net ''pop'') w'" and out: "stdout w' = stdout example_world @ [Up, Describe, Elapsed]"
    by blast
  from r have "example_net_set = set_name example_net ''pop''" "example_world_set = w'"
    by (simp_all add: example_net_set_def example_world_set_def example_calls_def)
  with b out show ?thesis by (simp add: example_world_def)
qed

lemma example_names:
  "variable_names example_net_set = [''pop''] \<and> impedance_names example_net_set = [''dist''] \<and>
   graph_no example_net_set = 0 \<and> node_ids example_net_set = [10, 20, 30]"
proof -
  from example_set have n1: "example_net_set = set_name example_net ''pop''" by (rule conjunct1)
  show ?thesis unfolding n1 by (simp add: set_name_def example_net_def node_ids_def)
qed

text \<open>
  C3. For a network returned by the constructor and then used in any sequence of calls
  of \<open>set\<close>: \<open>aggregate\<close> raises (\<open>KeyError\<close> or \<open>AssertionError\<close>) whenever the
  aggregation is not one of SUM, AVE, STD, COUNT, the decay is not one of EXP, LINEAR,
  FLAT (both after \<open>upper\<close>), the variable name was passed to none of the calls of
  \<open>set\<close>, or the impedance name is not a column of the edge weights. It returns its
  result without changing the network or the state, so a failure has no partial effect.
  With all four recognised, no validation fails: the result is the engine's answer, as a
  series over the node ids, or the engine's error.
\<close>

theorem aggregate_name_validation:
  assumes "Network_init nodes edges columns twoway w0 = (Inr net0, w1)"
    and "set_all net0 calls w1 = (net, w2)"
  shows "(upper type \<notin> {''SUM'', ''AVE'', ''STD'', ''COUNT''} \<or>
          upper decay \<notin> {''EXP'', ''LINEAR'', ''FLAT''} \<or>
          name \<notin> set (map (\<lambda>(ids, variable, name). name) calls) \<or> nm \<notin> set columns
          \<longrightarrow> Network_aggregate r net distance type decay (Some nm) name w
                \<in> {Inl KeyError, Inl AssertionError}) \<and>
         (upper type \<in> {''SUM'', ''AVE'', ''STD'', ''COUNT''} \<and>
          upper decay \<in> {''EXP'', ''LINEAR'', ''FLAT''} \<and>
          name \<in> set (variable_names net) \<and> nm \<in> set columns
          \<longrightarrow> (\<exists>agg dec. map_of AGGREGATIONS (upper type) = Some agg \<and>
                 map_of DECAYS (upper decay) = Some dec \<and>
                 Network_aggregate r net distance type decay (Some nm) name w =
                   (case get_all_aggregate_accessibility_variables r distance
                            (index_of name (variable_names net)) agg dec (graph_no net)
                            (index_of nm (impedance_names net)) w of
                      Inl e \<Rightarrow> Inl e
                    | Inr res \<Rightarrow> Series res (node_ids net))))"
proof -
  from init_result [OF assms(1)] have n0: "impedance_names net0 = columns" "variable_names net0 = []"
    by simp_all
  from set_all_fields [of net0 calls w1] assms(2) n0
  have imp: "impedance_names net = columns"
    and vars: "set (variable_names net) \<subseteq> set (map (\<lambda>(ids, variable, name). name) calls)"
    by simp_all
  have rej: "upper type \<notin> {''SUM'', ''AVE'', ''STD'', ''COUNT''} \<or>
          upper decay \<notin> {''EXP'', ''LINEAR'', ''FLAT''} \<or>
          name \<notin> set (map (\<lambda>(ids, variable, name). name) calls) \<or> nm \<notin> set columns
          \<longrightarrow> Network_aggregate r net distance type decay (Some nm) name w
                \<in> {Inl KeyError, Inl AssertionError}"
  proof
    assume "upper type \<notin> {''SUM'', ''AVE'', ''STD'', ''COUNT''} \<or>
          upper decay \<notin> {''EXP'', ''LINEAR'', ''FLAT''} \<or>
          name \<notin> set (map (\<lambda>(ids, variable, name). name) calls) \<or> nm \<notin> set columns"
    with vars imp have "upper type \<notin> {''SUM'', ''AVE'', ''STD'', ''COUNT''} \<or>
           upper decay \<notin> {''EXP'', ''LINEAR'', ''FLAT''} \<or>
           name \<notin> set (variable_names net) \<or> nm \<notin> set (impedance_names net)" by blast
    then show "Network_aggregate r net distance type decay (Some nm) name w
                \<in> {Inl KeyError, Inl AssertionError}" by (rule aggregate_rejects)
  qed
  have acc: "upper type \<in> {''SUM'', ''AVE'', ''STD'', ''COUNT''} \<and>
          upper decay \<in> {''EXP'', ''LINEAR'', ''FLAT''} \<and>
          name \<in> set (variable_names net) \<and> nm \<in> set columns
          \<longrightarrow> (\<exists>agg dec. map_of AGGREGATIONS (upper type) = Some agg \<and>
                 map_of DECAYS (upper decay) = Some dec \<and>
                 Network_aggregate r net distance type decay (Some nm) name w =
                   (case get_all_aggregate_accessibility_variables r distance
                            (index_of name (variable_names net)) agg dec (graph_no net)
                            (index_of nm (impedance_names net)) w of
                      Inl e \<Rightarrow> Inl e
                    | Inr res \<Rightarrow> Series res (node_ids net)))"
  proof
    assume a: "upper type \<in> {''SUM'', ''AVE'', ''STD'', ''COUNT''} \<and>
          upper decay \<in> {''EXP'', ''LINEAR'', ''FLAT''} \<and>
          name \<in> set (variable_names net) \<and> nm \<in> set columns"
    then obtain agg where agg: "map_of AGGREGATIONS (upper type) = Some agg"
      using AGGREGATIONS_keys [of "upper type"] by auto
    from a obtain dec where dec: "map_of DECAYS (upper decay) = Some dec"
      using DECAYS_keys [of "upper decay"] by auto
    from a imp have "name \<in> set (variable_names net)" "nm \<in> set (impedance_names net)" by simp_all
    from aggregate_accepts [OF agg dec this] agg dec
    show "\<exists>agg dec. map_of AGGREGATIONS (upper type) = Some agg \<and>
                 map_of DECAYS (upper decay) = Some dec \<and>
                 Network_aggregate r net distance type decay (Some nm) name w =
                   (case get_all_aggregate_accessibility_variables r distance
                            (index_of name (variable_names net)) agg dec (graph_no net)
                            (index_of nm (impedance_names net)) w of
                      Inl e \<Rightarrow> Inl e
                    | Inr res \<Rightarrow> Series res (node_ids net))" by blast
  qed
  from rej acc show ?thesis by (rule conjI)
qed

theorem aggregate_name_validation_witness:
  "Network_init nodes0 edges0 [''dist''] True initial = (Inr example_net, example_world) \<and>
   set_all example_net example_calls example_world = (example_net_set, example_world_set) \<and>
   upper ''median'' \<notin> {''SUM'', ''AVE'', ''STD'', ''COUNT''} \<and>
   Network_aggregate 0 example_net_set 2 ''median'' ''flat'' (Some ''dist'') ''pop'' example_world_set
     \<in> {Inl KeyError, Inl AssertionError} \<and>
   Network_aggregate 0 example_net_set 2 ''sum'' ''flat'' (Some ''dist'') ''jobs'' example_world_set
     \<in> {Inl KeyError, Inl AssertionError} \<and>
   upper ''sum'' = ''SUM'' \<and> upper ''flat'' = ''FLAT'' \<and> ''pop'' \<in> set (variable_names example_net_set) \<and>
   Network_aggregate 0 example_net_set 2 ''sum'' ''flat'' (Some ''dist'') ''pop'' example_world_set =
     (case get_all_aggregate_accessibility_variables 0 2 0 0 2 0 0 example_world_set of
        Inl e \<Rightarrow> Inl e
      | Inr res \<Rightarrow> Series res (node_ids example_net_set))"
proof -
  have u1: "upper ''median'' \<notin> {''SUM'', ''AVE'', ''STD'', ''COUNT''}" by code_simp
  have u2: "upper ''sum'' = ''SUM''" by code_simp
  have u3: "upper ''flat'' = ''FLAT''" by code_simp
  have j: "''jobs'' \<notin> set (map (\<lambda>(ids, variable, name). name) example_calls)" by (simp add: example_calls_def)
  have g: "graph_no example_net_set = 0" "node_ids example_net_set = [10, 20, 30]"
    using example_names by simp_all
  note t = aggregate_name_validation [OF example_init example_sets]
  from t [of "''median''" "''flat''" "''pop''" "''dist''" 0 2 example_world_set] u1
  have r1: "Network_aggregate 0 example_net_set 2 ''median'' ''flat'' (Some ''dist'') ''pop'' example_world_set
     \<in> {Inl KeyError, Inl AssertionError}" by blast
  from t [of "''sum''" "''flat''" "''jobs''" "''dist''" 0 2 example_world_set] j
  have r2: "Network_aggregate 0 example_net_set 2 ''sum'' ''flat'' (Some ''dist'') ''jobs'' example_world_set
     \<in> {Inl KeyError, Inl AssertionError}" by blast
  from t [of "''sum''" "''flat''" "''pop''" "''dist''" 0 2 example_world_set] u2 u3 example_names
  obtain agg dec where "map_of AGGREGATIONS ''SUM'' = Some agg" "map_of DECAYS ''FLAT'' = Some dec"
    and r3: "Network_aggregate 0 example_net_set 2 ''sum'' ''flat'' (Some ''dist'') ''pop'' example_world_set =
                   (case get_all_aggregate_accessibility_variables 0 2
                            (index_of ''pop'' (variable_names example_net_set)) agg dec (graph_no example_net_set)
                            (index_of ''dist'' (impedance_names example_net_set)) example_world_set of
                      Inl e \<Rightarrow> Inl e
                    | Inr res \<Rightarrow> Series res (node_ids example_net_set))"
    by auto
  then have "agg = 0" "dec = 2" by (simp_all add: AGGREGATIONS_def DECAYS_def)
  with r3 example_names g have r3': "Network_aggregate 0 example_net_set 2 ''sum'' ''flat'' (Some ''dist'') ''pop'' example_world_set =
     (case get_all_aggregate_accessibility_variables 0 2 0 0 2 0 0 example_world_set of
        Inl e \<Rightarrow> Inl e
      | Inr res \<Rightarrow> Series res (node_ids example_net_set))"
    by (simp add: index_of_def)
  from example_init example_sets u1 r1 r2 u2 u3 example_names r3' show ?thesis by simp
qed



section \<open>The rows \<open>set\<close> drops\<close>

lemma stdout_set_declare: "stdout (snd (set_declare net name w)) = stdout w"
  by (simp add: set_declare_def initialize_acc_vars_def split: option.splits)

lemma stdout_set_store:
  "stdout (snd (set_store net name df w)) = stdout w @ [Describe] \<or>
   stdout (snd (set_store net name df w)) = stdout w @ [Describe, Elapsed]"
proof -
  let ?w1 = "w\<lparr>stdout := stdout w @ [Describe]\<rparr>"
  let ?r = "initialize_acc_var (graph_no net) (index_of name (variable_names net))
             (map (\<lambda>(l, v, i). int32 (int i)) df) (map (\<lambda>(l, v, i). v) df) ?w1"
  have "stdout (snd ?r) = stdout w @ [Describe]"
    by (simp add: initialize_acc_var_def split: option.splits)
  then show ?thesis by (cases ?r) (auto simp: set_store_def split: sum.splits)
qed

lemma stdout_set:
  "\<exists>out. stdout (snd (snd (Network_set net ids variable name w))) = stdout w @ out \<and>
         set out \<subseteq> {Up, Describe, Elapsed}"
proof (cases "set_frame net ids variable name")
  case (Inl e)
  then have "stdout (snd (snd (Network_set net ids variable name w))) = stdout w @ [] \<and>
             set [] \<subseteq> {Up, Describe, Elapsed}"
    by (simp add: Network_set_def)
  then show ?thesis by (rule exI)
next
  case (Inr df0)
  let ?w1 = "set_report (int (length df0)) (int (length (dropna df0))) w"
  have o1: "stdout ?w1 = stdout w @ [Up]" by (simp add: set_report_quiet)
  obtain r2 w2 where d: "set_declare net name ?w1 = (r2, w2)" by (cases "set_declare net name ?w1")
  have "stdout (snd (set_declare net name ?w1)) = stdout ?w1" by (rule stdout_set_declare)
  with d o1 have o2: "stdout w2 = stdout w @ [Up]" by simp
  show ?thesis
  proof (cases r2)
    case (Inl e)
    with Inr d have "snd (snd (Network_set net ids variable name w)) = w2"
      by (simp add: Network_set_def)
    with o2 have "stdout (snd (snd (Network_set net ids variable name w))) = stdout w @ [Up] \<and>
             set [Up] \<subseteq> {Up, Describe, Elapsed}" by simp
    then show ?thesis by (rule exI)
  next
    case r2: (Inr u)
    obtain r3 w3 where st: "set_store (set_name net name) name (dropna df0) w2 = (r3, w3)"
      by (cases "set_store (set_name net name) name (dropna df0) w2")
    have w: "snd (snd (Network_set net ids variable name w)) = w3"
      using Inr d r2 st by (simp add: Network_set_def)
    have "stdout (snd (set_store (set_name net name) name (dropna df0) w2)) = stdout w2 @ [Describe] \<or>
          stdout (snd (set_store (set_name net name) name (dropna df0) w2)) = stdout w2 @ [Describe, Elapsed]"
      by (rule stdout_set_store)
    then consider (a) "stdout w3 = stdout w @ [Up, Describe]"
      | (b) "stdout w3 = stdout w @ [Up, Describe, Elapsed]"
      unfolding st o2 by auto
    then show ?thesis
    proof cases
      case a
      then have "stdout (snd (snd (Network_set net ids variable name w))) = stdout w @ [Up, Describe] \<and>
             set [Up, Describe] \<subseteq> {Up, Describe, Elapsed}" unfolding w by simp
      then show ?thesis by (rule exI)
    next
      case b
      then have "stdout (snd (snd (Network_set net ids variable name w))) = stdout w @ [Up, Describe, Elapsed] \<and>
             set [Up, Describe, Elapsed] \<subseteq> {Up, Describe, Elapsed}" unfolding w by simp
      then show ?thesis by (rule exI)
    qed
  qed
qed

lemma kept_rows_frame:
  "length var = length ids \<Longrightarrow>
   map (\<lambda>(l, v, k). (k, v))
     (dropna (map (\<lambda>((l, x), (_, y)). (l, Some x, Some y))
                  (zip var (map (\<lambda>(l, i). (l, map_of idx i)) ids))))
   = kept_rows idx ids (map snd var)"
proof (induction var ids rule: list_induct2)
  case Nil
  then show ?case by (simp add: dropna_def kept_rows_def)
next
  case (Cons p var q ids)
  obtain l x where p: "p = (l, x)" by (cases p)
  obtain l' i where q: "q = (l', i)" by (cases q)
  have d: "dropna (r # rows) = dropna [r] @ dropna rows" for r :: "int \<times> real option option \<times> nat option option" and rows
    by (simp add: dropna_def)
  have k: "kept_rows idx (q # ids) (x # map snd var) = kept_rows idx [q] [x] @ kept_rows idx ids (map snd var)"
    by (simp add: kept_rows_def)
  have one: "map (\<lambda>(l, v, k). (k, v)) (dropna [(l, Some x, Some (map_of idx i))]) = kept_rows idx [q] [x]"
    unfolding q by (cases x; cases "map_of idx i") (simp_all add: dropna_def kept_rows_def)
  let ?rest = "map (\<lambda>((l, x), (_, y)). (l, Some x, Some y))
                  (zip var (map (\<lambda>(l, i). (l, map_of idx i)) ids))"
  have "map (\<lambda>(l, v, k). (k, v)) (dropna ((l, Some x, Some (map_of idx i)) # ?rest))
        = map (\<lambda>(l, v, k). (k, v)) (dropna [(l, Some x, Some (map_of idx i))])
          @ map (\<lambda>(l, v, k). (k, v)) (dropna ?rest)"
    by (subst d) simp
  also have "\<dots> = kept_rows idx [q] [x] @ kept_rows idx ids (map snd var)"
    unfolding one Cons.IH ..
  also have "\<dots> = kept_rows idx (q # ids) (x # map snd var)" by (rule k [symmetric])
  finally show ?case unfolding p q by simp
qed

lemma set_frame_aligned:
  assumes "distinct (map fst (node_idx net))" "name \<noteq> ''node_idx''"
    and "variable = None \<or> (\<exists>v. variable = Some v \<and> map fst v = map fst ids)"
  shows "\<exists>df0. set_frame net ids variable name = Inr df0 \<and>
           map (\<lambda>(l, v, k). (k, v)) (dropna df0)
             = kept_rows (node_idx net) ids
                 (case variable of None \<Rightarrow> map (\<lambda>_. Some 1) ids | Some v \<Rightarrow> map snd v)"
proof -
  let ?var = "case variable of None \<Rightarrow> map (\<lambda>(l, _). (l, Some 1)) ids | Some v \<Rightarrow> v"
  let ?idxs = "map (\<lambda>(l, i). (l, map_of (node_idx net) i)) ids"
  have ni: "node_indexes (node_idx net) ids = ?idxs" by (rule node_indexes_map [OF assms(1)])
  have fv: "map fst ?var = map fst ids" using assms(3) by (auto split: option.splits)
  have fi: "map fst ?idxs = map fst ids" by (induction ids) auto
  have sv: "map snd ?var = (case variable of None \<Rightarrow> map (\<lambda>_. Some 1) ids | Some v \<Rightarrow> map snd v)"
    by (cases variable) (simp_all add: case_prod_unfold)
  from fv have len: "length ?var = length ids" by (metis length_map)
  have "set_frame net ids variable name
          = Inr (map (\<lambda>((l, x), (_, y)). (l, Some x, Some y)) (zip ?var ?idxs))"
    using assms(2) fv fi by (simp add: set_frame_def ni DataFrame2_def)
  with kept_rows_frame [OF len, of "node_idx net"] sv show ?thesis by simp
qed

text \<open>
  C10. Whatever its arguments, \<open>set\<close> never prints the "Removed ... rows" line: the
  guard compares the row count after \<open>dropna\<close> with the count before, and the former
  never exceeds the latter. On a network bound to its graph, with distinct node ids and
  a variable that shares the index of the node ids (or none), \<open>set\<close> does not fail,
  whatever the node ids and values are: it prints its two timings and the description,
  and the engine receives exactly the rows whose node id belongs to the network and
  whose value is not missing.
\<close>

theorem set_drops_rows_silently:
  "(\<forall>k. Removed k \<in> set (stdout (snd (snd (Network_set net ids variable name w))))
         \<longrightarrow> Removed k \<in> set (stdout w)) \<and>
   (bound net w \<and> distinct (node_ids net) \<and> name \<noteq> ''node_idx'' \<and>
    (variable = None \<or> (\<exists>v. variable = Some v \<and> map fst v = map fst ids))
      \<longrightarrow> (\<exists>w' g. Network_set net ids variable name w = (Inr (), set_name net name, w') \<and>
             stdout w' = stdout w @ [Up, Describe, Elapsed] \<and>
             graph_at w' (graph_no net) = Some g \<and>
             g_vars g ! index_of name (variable_names (set_name net name))
               = kept_rows (node_idx net) ids
                   (case variable of None \<Rightarrow> map (\<lambda>_. Some 1) ids | Some v \<Rightarrow> map snd v)))"
proof (rule conjI)
  show "\<forall>k. Removed k \<in> set (stdout (snd (snd (Network_set net ids variable name w))))
         \<longrightarrow> Removed k \<in> set (stdout w)"
  proof (intro allI impI)
    fix k assume r: "Removed k \<in> set (stdout (snd (snd (Network_set net ids variable name w))))"
    from stdout_set [of net ids variable name w] obtain out where
      o: "stdout (snd (snd (Network_set net ids variable name w))) = stdout w @ out"
      and s: "set out \<subseteq> {Up, Describe, Elapsed}" by blast
    from s have "Removed k \<notin> set out" by auto
    with r o show "Removed k \<in> set (stdout w)" by simp
  qed
next
  show "bound net w \<and> distinct (node_ids net) \<and> name \<noteq> ''node_idx'' \<and>
    (variable = None \<or> (\<exists>v. variable = Some v \<and> map fst v = map fst ids))
      \<longrightarrow> (\<exists>w' g. Network_set net ids variable name w = (Inr (), set_name net name, w') \<and>
             stdout w' = stdout w @ [Up, Describe, Elapsed] \<and>
             graph_at w' (graph_no net) = Some g \<and>
             g_vars g ! index_of name (variable_names (set_name net name))
               = kept_rows (node_idx net) ids
                   (case variable of None \<Rightarrow> map (\<lambda>_. Some 1) ids | Some v \<Rightarrow> map snd v))"
  proof
    assume a: "bound net w \<and> distinct (node_ids net) \<and> name \<noteq> ''node_idx'' \<and>
      (variable = None \<or> (\<exists>v. variable = Some v \<and> map fst v = map fst ids))"
    then have b: "bound net w" and d: "distinct (map fst (node_idx net))" and n: "name \<noteq> ''node_idx''"
      and al: "variable = None \<or> (\<exists>v. variable = Some v \<and> map fst v = map fst ids)"
      by (simp_all add: node_ids_def)
    from set_frame_aligned [OF d n al] obtain df0 where
      f: "set_frame net ids variable name = Inr df0"
      and rows: "map (\<lambda>(l, v, k). (k, v)) (dropna df0)
             = kept_rows (node_idx net) ids
                 (case variable of None \<Rightarrow> map (\<lambda>_. Some 1) ids | Some v \<Rightarrow> map snd v)"
      by blast
    from set_succeeds [OF b f] obtain w' g where
      "Network_set net ids variable name w = (Inr (), set_name net name, w')"
      "stdout w' = stdout w @ [Up, Describe, Elapsed]"
      "graph_at w' (graph_no net) = Some g"
      "g_vars g ! index_of name (variable_names (set_name net name))
             = map (\<lambda>(l, v, k). (k, v)) (dropna df0)"
      by blast
    with rows show "\<exists>w' g. Network_set net ids variable name w = (Inr (), set_name net name, w') \<and>
             stdout w' = stdout w @ [Up, Describe, Elapsed] \<and>
             graph_at w' (graph_no net) = Some g \<and>
             g_vars g ! index_of name (variable_names (set_name net name))
               = kept_rows (node_idx net) ids
                   (case variable of None \<Rightarrow> map (\<lambda>_. Some 1) ids | Some v \<Rightarrow> map snd v)"
      by auto
  qed
qed

theorem set_drops_rows_silently_witness:
  "bound example_net example_world \<and> distinct (node_ids example_net) \<and>
   map fst [(0::int, Some (5::real)), (1, None), (2, Some 3)] = map fst [(0::int, 10::int), (1, 30), (2, 77)] \<and>
   kept_rows (node_idx example_net) [(0, 10), (1, 30), (2, 77)] [Some 5, None, Some 3] = [(0, 5)] \<and>
   fst (Network_set example_net [(0, 10), (1, 30), (2, 77)]
          (Some [(0, Some 5), (1, None), (2, Some 3)]) ''pop'' example_world) = Inr () \<and>
   stdout (snd (snd (Network_set example_net [(0, 10), (1, 30), (2, 77)]
          (Some [(0, Some 5), (1, None), (2, Some 3)]) ''pop'' example_world)))
     = [Up, Describe, Elapsed]"
proof -
  have d: "distinct (node_ids example_net)" by (simp add: node_ids_def example_net_def)
  have k: "kept_rows (node_idx example_net) [(0, 10), (1, 30), (2, 77)] [Some 5, None, Some 3] = [(0, 5)]"
    by (simp add: kept_rows_def example_net_def)
  have n: "''pop'' \<noteq> ''node_idx''" by simp
  have o: "stdout example_world = []" by (simp add: example_world_def)
  from set_drops_rows_silently [of example_net "[(0, 10), (1, 30), (2, 77)]"
      "Some [(0, Some 5), (1, None), (2, Some 3)]" "''pop''" example_world] example_bound d n
  obtain w' where "Network_set example_net [(0, 10), (1, 30), (2, 77)]
          (Some [(0, Some 5), (1, None), (2, Some 3)]) ''pop'' example_world
       = (Inr (), set_name example_net ''pop'', w')"
    and "stdout w' = stdout example_world @ [Up, Describe, Elapsed]"
    by auto
  with example_bound d k o show ?thesis by simp
qed

section \<open>The range search\<close>

lemma pop_min_set: "pop_min r x xs = (m, rest) \<Longrightarrow> set (m # rest) = set (x # xs)"
proof (induction xs arbitrary: x m rest)
  case Nil
  then show ?case by simp
next
  case (Cons y ys)
  obtain m' rest' where p: "pop_min r y ys = (m', rest')" by (cases "pop_min r y ys")
  have sets: "set (m' # rest') = set (y # ys)" by (rule Cons.IH [OF p])
  show ?case
  proof (cases "imp r (fst x) \<le> imp r (fst m')")
    case True
    with Cons.prems p show ?thesis by auto
  next
    case False
    with Cons.prems p have "m = m'" "rest = x # rest'" by simp_all
    with sets show ?thesis by auto
  qed
qed

lemma pop_min_least:
  "pop_min r x xs = (m, rest) \<Longrightarrow> l \<in> set (x # xs) \<Longrightarrow> imp r (fst m) \<le> imp r (fst l)"
proof (induction xs arbitrary: x m rest)
  case Nil
  then show ?case by simp
next
  case (Cons y ys)
  obtain m' rest' where p: "pop_min r y ys = (m', rest')" by (cases "pop_min r y ys")
  have least: "l \<in> set (y # ys) \<Longrightarrow> imp r (fst m') \<le> imp r (fst l)"
    by (rule Cons.IH [OF p])
  show ?case
  proof (cases "imp r (fst x) \<le> imp r (fst m')")
    case True
    with Cons.prems p have "m = x" by simp
    with True least Cons.prems(2) show ?thesis by fastforce
  next
    case False
    with Cons.prems p have "m = m'" by simp
    with False least Cons.prems(2) show ?thesis by fastforce
  qed
qed

lemma imp_extend:
  assumes "arcs_ok k arcs" "length (fst m) = k" "l \<in> set (extend arcs m)"
  shows "length (fst l) = k \<and> imp r (fst m) \<le> imp r (fst l)"
proof -
  from assms(3) obtain a v ws where arc: "(a, v, ws) \<in> set arcs"
    and l: "l = (map (\<lambda>(d, x). d + x) (zip (fst m) ws), v)"
    by (auto simp: extend_def)
  from arc assms(1) have ws: "length ws = k" "\<forall>x \<in> set ws. 0 \<le> x"
    by (auto simp: arcs_ok_def)
  have len: "length (fst l) = k" using l ws assms(2) by simp
  have "imp r (fst m) \<le> imp r (fst l)"
  proof (cases "r < k")
    case True
    then have "0 \<le> ws ! r" using ws by simp
    with True l ws assms(2) show ?thesis by (simp add: imp_def)
  next
    case False
    with len assms(2) show ?thesis by (simp add: imp_def)
  qed
  with len show ?thesis by simp
qed

lemma trim_update_far:
  "L ! u = None \<Longrightarrow> c < imp r ds \<Longrightarrow> trim r c (L[u := Some ds]) = trim r c L"
  by (cases "u < length L") (auto simp: trim_def list_eq_iff_nth_eq nth_list_update)

lemma search_step:
  "pop_min r x xs = (m, rest) \<Longrightarrow>
   search arcs r c L (x # xs) =
     (if c < imp r (fst m) then L
      else if snd m < length L \<and> L ! snd m = None
      then search arcs r c (L[snd m := Some (fst m)]) (rest @ extend arcs m)
      else search arcs r c L rest)"
  by (subst search.simps(2)) (simp add: Let_def)

lemma search_beyond:
  "arcs_ok k arcs \<Longrightarrow> \<forall>l \<in> set F. length (fst l) = k \<and> c1 < imp r (fst l) \<Longrightarrow>
     trim r c1 (search arcs r c2 L F) = trim r c1 L"
proof (induction arcs r c2 L F rule: search.induct)
  case (1 arcs r c L)
  then show ?case by (simp add: search.simps(1))
next
  case (2 arcs r c L x xs)
  obtain m rest where p: "pop_min r x xs = (m, rest)" by (cases "pop_min r x xs")
  have sets: "set (m # rest) = set (x # xs)" by (rule pop_min_set [OF p])
  then have m: "length (fst m) = k" "c1 < imp r (fst m)"
    and rest: "\<forall>l \<in> set rest. length (fst l) = k \<and> c1 < imp r (fst l)"
    using "2.prems"(2) by auto
  note ok = "2.prems"(1)
  have m_eq: "m = fst (pop_min r x xs)" "rest = snd (pop_min r x xs)" using p by simp_all
  show ?case
  proof (cases "c < imp r (fst m)")
    case True
    with search_step [OF p] show ?thesis by simp
  next
    case far: False
    show ?thesis
    proof (cases "snd m < length L \<and> L ! snd m = None")
      case True
      have "\<forall>l \<in> set (extend arcs m). length (fst l) = k \<and> c1 < imp r (fst l)"
      proof
        fix l assume "l \<in> set (extend arcs m)"
        from imp_extend [OF ok m(1) this, of r] m(2)
        show "length (fst l) = k \<and> c1 < imp r (fst l)" by simp
      qed
      with rest have "\<forall>l \<in> set (rest @ extend arcs m). length (fst l) = k \<and> c1 < imp r (fst l)"
        by auto
      then have "trim r c1 (search arcs r c (L[snd m := Some (fst m)]) (rest @ extend arcs m))
                 = trim r c1 (L[snd m := Some (fst m)])"
        by (rule "2.IH"(1) [OF m_eq far True ok])
      with far True m show ?thesis by (simp add: search_step [OF p] trim_update_far)
    next
      case False
      have "trim r c1 (search arcs r c L rest) = trim r c1 L"
        by (rule "2.IH"(2) [OF m_eq far False ok rest])
      with far False show ?thesis by (auto simp: search_step [OF p])
    qed
  qed
qed

lemma trim_update_near:
  "trim r c L = L \<Longrightarrow> imp r ds \<le> c \<Longrightarrow> trim r c (L[u := Some ds]) = L[u := Some ds]"
  by (simp add: trim_def map_update)

lemma search_trim:
  "arcs_ok k arcs \<Longrightarrow> c1 \<le> c2 \<Longrightarrow> \<forall>l \<in> set F. length (fst l) = k \<Longrightarrow> trim r c1 L = L \<Longrightarrow>
     trim r c1 (search arcs r c2 L F) = search arcs r c1 L F"
proof (induction arcs r c2 L F rule: search.induct)
  case (1 arcs r c L)
  then show ?case by (simp add: search.simps(1))
next
  case (2 arcs r c L x xs)
  obtain m rest where p: "pop_min r x xs = (m, rest)" by (cases "pop_min r x xs")
  have m_eq: "m = fst (pop_min r x xs)" "rest = snd (pop_min r x xs)" using p by simp_all
  have sets: "set (m # rest) = set (x # xs)" by (rule pop_min_set [OF p])
  then have m: "length (fst m) = k" and rest: "\<forall>l \<in> set rest. length (fst l) = k"
    using "2.prems"(3) by auto
  note ok = "2.prems"(1) and le = "2.prems"(2) and settled = "2.prems"(4)
  have ext: "\<forall>l \<in> set (rest @ extend arcs m). length (fst l) = k"
    using rest imp_extend [OF ok m, of _ r] by auto
  show ?case
  proof (cases "c < imp r (fst m)")
    case True
    with le have "c1 < imp r (fst m)" by simp
    with True settled show ?thesis by (simp add: search_step [OF p])
  next
    case far: False
    show ?thesis
    proof (cases "c1 < imp r (fst m)")
      case True
      have "\<forall>l \<in> set (x # xs). length (fst l) = k \<and> c1 < imp r (fst l)"
      proof
        fix l assume l: "l \<in> set (x # xs)"
        from pop_min_least [OF p l] True "2.prems"(3) l
        show "length (fst l) = k \<and> c1 < imp r (fst l)" by auto
      qed
      then have "trim r c1 (search arcs r c L (x # xs)) = trim r c1 L"
        by (rule search_beyond [OF ok])
      with True settled show ?thesis by (simp add: search_step [OF p, of arcs c1])
    next
      case near: False
      show ?thesis
      proof (cases "snd m < length L \<and> L ! snd m = None")
        case True
        have "trim r c1 (L[snd m := Some (fst m)]) = L[snd m := Some (fst m)]"
          using settled near by (simp add: trim_update_near)
        then have "trim r c1 (search arcs r c (L[snd m := Some (fst m)]) (rest @ extend arcs m))
                   = search arcs r c1 (L[snd m := Some (fst m)]) (rest @ extend arcs m)"
          by (rule "2.IH"(1) [OF m_eq far True ok le ext])
        with far near True show ?thesis
          by (simp add: search_step [OF p])
      next
        case False
        have "trim r c1 (search arcs r c L rest) = search arcs r c1 L rest"
          by (rule "2.IH"(2) [OF m_eq far False ok le rest settled])
        with far near False show ?thesis
          by (auto simp: search_step [OF p])
      qed
    qed
  qed
qed

end
